theory Spec2Isabelle
  imports Main "HOL-Library.Sublist"
begin

section \<open>The mini DOM of \<^verbatim>\<open>my-mini-dom.js\<close>: data model\<close>

text \<open>
  Objects are references. A node (an \<^verbatim>\<open>EventTarget\<close>) is identified by a natural
  number, and so is a listener function: the source compares both with \<^verbatim>\<open>===\<close>,
  that is by identity. The fields of all objects live in one store, the record
  \<open>world\<close>, which every operation takes and gives back.
\<close>

type_synonym nid = nat
type_synonym lid = nat

text \<open>The object \<^verbatim>\<open>{ listener, capture, once }\<close> pushed by \<^verbatim>\<open>addEventListener\<close>.\<close>

record entry =
  listener :: lid
  capture :: bool
  once :: bool

text \<open>
  Class \<^verbatim>\<open>Event\<close>. The field \<^verbatim>\<open>type\<close> is called \<open>etype\<close> here; the fields with a
  leading underscore lose it. \<^verbatim>\<open>timeStamp\<close> is read by nothing and is left out.
\<close>

abbreviation (input) NONE :: nat where "NONE \<equiv> 0"
abbreviation (input) CAPTURING_PHASE :: nat where "CAPTURING_PHASE \<equiv> 1"
abbreviation (input) AT_TARGET :: nat where "AT_TARGET \<equiv> 2"
abbreviation (input) BUBBLING_PHASE :: nat where "BUBBLING_PHASE \<equiv> 3"

record event =
  etype :: string
  bubbles :: bool
  cancelable :: bool
  target :: "nid option"
  currentTarget :: "nid option"
  phase :: nat
  propagationStopped :: bool
  immediatePropagationStopped :: bool
  defaultPrevented :: bool

text \<open>
  Every \<^verbatim>\<open>throw new Error(msg)\<close> of the source is a value \<open>Error msg\<close>; a
  \<open>TypeError\<close> is what the language raises when a value is used as what it is not.
\<close>

datatype error = Error string | TypeError string

text \<open>
  One invocation of a listener, as the dispatcher performed it: the node that was
  \<^verbatim>\<open>this\<close>, the registration, the event as the listener left it, and the exception the
  listener raised, if any. The list of these is instrumentation of the model (the source
  keeps no such list); the claims about invocation order are stated on it.
\<close>

record call =
  receiver :: nid
  registration :: entry
  event_after :: event
  raised :: "error option"

text \<open>
  The store. \<open>listeners w n ty\<close> is the own property \<^verbatim>\<open>ty\<close> of the object
  \<^verbatim>\<open>n._listeners\<close> (\<open>None\<close> when the object has no such property), \<open>parentNode\<close> and
  \<open>childNodes\<close> are the fields of class \<^verbatim>\<open>Node\<close> (an \<^verbatim>\<open>EventTarget\<close> that is no
  \<^verbatim>\<open>Node\<close> has no \<^verbatim>\<open>parentNode\<close>: \<open>None\<close>), \<open>console\<close> collects what
  \<^verbatim>\<open>console.error\<close> received.
\<close>

record world =
  listeners :: "nid \<Rightarrow> string \<Rightarrow> entry list option"
  parentNode :: "nid \<Rightarrow> nid option"
  childNodes :: "nid \<Rightarrow> nid list"
  calls :: "call list"
  console :: "error list"

section \<open>Class Event\<close>

definition new_Event :: "string \<Rightarrow> bool \<Rightarrow> bool \<Rightarrow> event" where
  "new_Event ty b c =
     \<lparr>etype = ty, bubbles = b, cancelable = c, target = None, currentTarget = None,
      phase = NONE, propagationStopped = False, immediatePropagationStopped = False,
      defaultPrevented = False\<rparr>"

definition stopPropagation :: "event \<Rightarrow> event" where
  "stopPropagation e = e\<lparr>propagationStopped := True\<rparr>"

definition stopImmediatePropagation :: "event \<Rightarrow> event" where
  "stopImmediatePropagation e =
     e\<lparr>propagationStopped := True, immediatePropagationStopped := True\<rparr>"

definition preventDefault :: "event \<Rightarrow> event" where
  "preventDefault e = (if cancelable e then e\<lparr>defaultPrevented := True\<rparr> else e)"

section \<open>Class Node: tree mutation\<close>

text \<open>\<^verbatim>\<open>Array.prototype.indexOf\<close>: the first index holding the value, \<open>None\<close> for -1.\<close>

fun indexOf :: "'a list \<Rightarrow> 'a \<Rightarrow> nat option" where
  "indexOf [] x = None"
| "indexOf (y # ys) x = (if y = x then Some 0 else map_option Suc (indexOf ys x))"

text \<open>\<^verbatim>\<open>xs.splice(i, 1)\<close> and \<^verbatim>\<open>xs.splice(i, 0, x)\<close>.\<close>

definition splice_remove :: "nat \<Rightarrow> 'a list \<Rightarrow> 'a list" where
  "splice_remove i xs = take i xs @ drop (Suc i) xs"

definition splice_insert :: "nat \<Rightarrow> 'a \<Rightarrow> 'a list \<Rightarrow> 'a list" where
  "splice_insert i x xs = take i xs @ x # drop i xs"

text \<open>
  \<^verbatim>\<open>xs[i] = x\<close>. JavaScript overwrites inside the array and extends it by one at
  \<open>i = length xs\<close>. (Beyond that it would leave holes; \<open>replaceChild\<close>, the only user,
  never gets there, since removing one element from an array that holds another element
  at index \<open>i\<close> leaves it at least \<open>i\<close> long.)
\<close>

definition assign_index :: "nat \<Rightarrow> 'a \<Rightarrow> 'a list \<Rightarrow> 'a list" where
  "assign_index i x xs = (if i < length xs then xs[i := x] else xs @ [x])"

text \<open>
  A tree operation returns its result, or the error it throws, together with the store
  as it is at that moment.
\<close>

definition removeChild :: "nid \<Rightarrow> nid \<Rightarrow> world \<Rightarrow> (error + nid) \<times> world" where
  "removeChild this child w =
     (case indexOf (childNodes w this) child of
        None \<Rightarrow> (Inl (Error ''Node not found''), w)
      | Some index \<Rightarrow>
          (let w1 = w\<lparr>parentNode := (parentNode w)(child := None)\<rparr>;
               w2 = w1\<lparr>childNodes :=
                      (childNodes w1)(this := splice_remove index (childNodes w1 this))\<rparr>
           in (Inr child, w2)))"

text \<open>
  The statement \<^verbatim>\<open>if (x.parentNode) { x.parentNode.removeChild(x); }\<close>, which
  \<^verbatim>\<open>appendChild\<close>, \<^verbatim>\<open>insertBefore\<close> and \<^verbatim>\<open>replaceChild\<close> all contain.
\<close>

definition detach :: "nid \<Rightarrow> world \<Rightarrow> (error + nid) \<times> world" where
  "detach x w =
     (case parentNode w x of
        None \<Rightarrow> (Inr x, w)
      | Some p \<Rightarrow> removeChild p x w)"

definition appendChild :: "nid \<Rightarrow> nid \<Rightarrow> world \<Rightarrow> (error + nid) \<times> world" where
  "appendChild this child w =
     (case detach child w of
        (Inl err, w1) \<Rightarrow> (Inl err, w1)
      | (Inr _, w1) \<Rightarrow>
          (let w2 = w1\<lparr>parentNode := (parentNode w1)(child := Some this)\<rparr>;
               w3 = w2\<lparr>childNodes := (childNodes w2)(this := childNodes w2 this @ [child])\<rparr>
           in (Inr child, w3)))"

definition insertBefore :: "nid \<Rightarrow> nid \<Rightarrow> nid option \<Rightarrow> world \<Rightarrow> (error + nid) \<times> world" where
  "insertBefore this newNode referenceNode w =
     (case referenceNode of
        None \<Rightarrow> appendChild this newNode w
      | Some ref \<Rightarrow>
          (case indexOf (childNodes w this) ref of
             None \<Rightarrow> (Inl (Error ''Reference node not found''), w)
           | Some index \<Rightarrow>
               (case detach newNode w of
                  (Inl err, w1) \<Rightarrow> (Inl err, w1)
                | (Inr _, w1) \<Rightarrow>
                    (let w2 = w1\<lparr>parentNode := (parentNode w1)(newNode := Some this)\<rparr>;
                         w3 = w2\<lparr>childNodes :=
                                (childNodes w2)
                                  (this := splice_insert index newNode (childNodes w2 this))\<rparr>
                     in (Inr newNode, w3)))))"

definition replaceChild :: "nid \<Rightarrow> nid \<Rightarrow> nid \<Rightarrow> world \<Rightarrow> (error + nid) \<times> world" where
  "replaceChild this newChild oldChild w =
     (case indexOf (childNodes w this) oldChild of
        None \<Rightarrow> (Inl (Error ''Node not Found''), w)
      | Some index \<Rightarrow>
          (case detach newChild w of
             (Inl err, w1) \<Rightarrow> (Inl err, w1)
           | (Inr _, w1) \<Rightarrow>
               (let w2 = w1\<lparr>parentNode := (parentNode w1)(oldChild := None)\<rparr>;
                    w3 = w2\<lparr>parentNode := (parentNode w2)(newChild := Some this)\<rparr>;
                    w4 = w3\<lparr>childNodes :=
                           (childNodes w3)
                             (this := assign_index index newChild (childNodes w3 this))\<rparr>
                in (Inr oldChild, w4))))"

section \<open>Class EventTarget: the listener registry\<close>

text \<open>
  The registry \<^verbatim>\<open>this._listeners\<close> is created as \<^verbatim>\<open>{}\<close>, an ordinary object, so reading
  \<^verbatim>\<open>this._listeners[type]\<close> finds what the object inherits from \<^verbatim>\<open>Object.prototype\<close> when
  it has no own property of that name. These are the names \<^verbatim>\<open>Object.prototype\<close> defines
  (the language standard with its annex B); none of the values is falsy, none is an
  array, none is iterable and none has a \<^verbatim>\<open>push\<close> or a \<^verbatim>\<open>filter\<close>.
\<close>

definition object_prototype_keys :: "string list" where
  "object_prototype_keys =
     [''constructor'', ''hasOwnProperty'', ''isPrototypeOf'', ''propertyIsEnumerable'',
      ''toLocaleString'', ''toString'', ''valueOf'', ''__proto__'',
      ''__defineGetter__'', ''__defineSetter__'', ''__lookupGetter__'', ''__lookupSetter__'']"

definition inherited :: "string \<Rightarrow> bool" where
  "inherited ty \<longleftrightarrow> ty \<in> set object_prototype_keys"

text \<open>
  What \<^verbatim>\<open>this._listeners[type]\<close> evaluates to: \<^verbatim>\<open>undefined\<close>, an array of registrations,
  or an inherited value.
\<close>

datatype slot = Undefined | Array "entry list" | Foreign

definition registry_get :: "world \<Rightarrow> nid \<Rightarrow> string \<Rightarrow> slot" where
  "registry_get w n ty =
     (case listeners w n ty of
        Some xs \<Rightarrow> Array xs
      | None \<Rightarrow> if inherited ty then Foreign else Undefined)"

text \<open>
  The \<^verbatim>\<open>options\<close> argument (a boolean, or an object with \<^verbatim>\<open>capture\<close> and \<^verbatim>\<open>once\<close>) is
  given as the two flags the source computes from it. Both methods return nothing; the
  model gives the exception they throw, if any, and the store. On an inherited value the
  test \<^verbatim>\<open>!this._listeners[type]\<close> fails and the call of \<^verbatim>\<open>push\<close> or \<^verbatim>\<open>filter\<close> throws.
\<close>

definition addEventListener ::
  "nid \<Rightarrow> string \<Rightarrow> lid \<Rightarrow> bool \<Rightarrow> bool \<Rightarrow> world \<Rightarrow> error option \<times> world" where
  "addEventListener this ty l cap onc w =
     (case registry_get w this ty of
        Undefined \<Rightarrow>
          (None, w\<lparr>listeners :=
                    (listeners w)
                      (this := (listeners w this)
                         (ty \<mapsto> [] @ [\<lparr>listener = l, capture = cap, once = onc\<rparr>]))\<rparr>)
      | Array xs \<Rightarrow>
          (None, w\<lparr>listeners :=
                    (listeners w)
                      (this := (listeners w this)
                         (ty \<mapsto> xs @ [\<lparr>listener = l, capture = cap, once = onc\<rparr>]))\<rparr>)
      | Foreign \<Rightarrow>
          (Some (TypeError ''this._listeners[type].push is not a function''), w))"

definition removeEventListener ::
  "nid \<Rightarrow> string \<Rightarrow> lid \<Rightarrow> bool \<Rightarrow> world \<Rightarrow> error option \<times> world" where
  "removeEventListener this ty l cap w =
     (case registry_get w this ty of
        Undefined \<Rightarrow> (None, w)
      | Array xs \<Rightarrow>
          (None, w\<lparr>listeners :=
                    (listeners w)
                      (this := (listeners w this)
                         (ty \<mapsto> filter (\<lambda>en. \<not> (listener en = l \<and> capture en = cap)) xs))\<rparr>)
      | Foreign \<Rightarrow>
          (Some (TypeError ''this._listeners[type].filter is not a function''), w))"

section \<open>Listener functions\<close>

text \<open>
  A listener is client code. It is modelled by what it does through the interface of the
  library: the three methods of the event it receives, the two registry methods and the
  four tree mutations, on any node, and throwing. When it is called, a listener function
  computes the sequence of these statements from its receiver, the event and the whole
  store, so it may branch on anything it can read. A statement that throws ends the
  listener, be it \<^verbatim>\<open>throw\<close> or a library call that fails. Calling \<^verbatim>\<open>dispatchEvent\<close>
  from inside a listener is not modelled.
\<close>

datatype stmt =
    StopPropagation
  | StopImmediatePropagation
  | PreventDefault
  | AddEventListener nid string lid bool bool
  | RemoveEventListener nid string lid bool
  | AppendChild nid nid
  | InsertBefore nid nid "nid option"
  | RemoveChild nid nid
  | ReplaceChild nid nid nid
  | Throw string

type_synonym listener_fn = "nid \<Rightarrow> event \<Rightarrow> world \<Rightarrow> stmt list"

definition registry_call ::
  "error option \<times> world \<Rightarrow> event \<Rightarrow> error option \<times> event \<times> world" where
  "registry_call r e = (case r of (x, w') \<Rightarrow> (x, e, w'))"

definition tree_call ::
  "(error + nid) \<times> world \<Rightarrow> event \<Rightarrow> error option \<times> event \<times> world" where
  "tree_call r e =
     (case r of
        (Inl err, w') \<Rightarrow> (Some err, e, w')
      | (Inr _, w') \<Rightarrow> (None, e, w'))"

fun exec_stmt :: "stmt \<Rightarrow> event \<Rightarrow> world \<Rightarrow> error option \<times> event \<times> world" where
  "exec_stmt StopPropagation e w = (None, stopPropagation e, w)"
| "exec_stmt StopImmediatePropagation e w = (None, stopImmediatePropagation e, w)"
| "exec_stmt PreventDefault e w = (None, preventDefault e, w)"
| "exec_stmt (AddEventListener n ty l cap onc) e w =
     registry_call (addEventListener n ty l cap onc w) e"
| "exec_stmt (RemoveEventListener n ty l cap) e w =
     registry_call (removeEventListener n ty l cap w) e"
| "exec_stmt (AppendChild p c) e w = tree_call (appendChild p c w) e"
| "exec_stmt (InsertBefore p c r) e w = tree_call (insertBefore p c r w) e"
| "exec_stmt (RemoveChild p c) e w = tree_call (removeChild p c w) e"
| "exec_stmt (ReplaceChild p c d) e w = tree_call (replaceChild p c d w) e"
| "exec_stmt (Throw msg) e w = (Some (Error msg), e, w)"

fun exec_body :: "stmt list \<Rightarrow> event \<Rightarrow> world \<Rightarrow> error option \<times> event \<times> world" where
  "exec_body [] e w = (None, e, w)"
| "exec_body (s # ss) e w =
     (case exec_stmt s e w of
        (Some err, e', w') \<Rightarrow> (Some err, e', w')
      | (None, e', w') \<Rightarrow> exec_body ss e' w')"

section \<open>Class EventTarget: dispatch\<close>

text \<open>
  The functions of this section return nothing or a boolean in the source. The model
  gives, besides the event and the store, the exception that leaves the function, if any:
  a listener's exception is caught inside \<^verbatim>\<open>_executeListner\<close>, any other one travels up
  to the caller of \<^verbatim>\<open>dispatchEvent\<close>.

  \<^verbatim>\<open>_executeListner\<close> (the source's spelling): the one-shot removal, which stands before
  the \<^verbatim>\<open>try\<close>, then the call inside \<^verbatim>\<open>try\<close>, whose \<^verbatim>\<open>catch\<close> hands the exception to
  \<^verbatim>\<open>console.error\<close>.
\<close>

definition executeListner ::
  "(lid \<Rightarrow> listener_fn) \<Rightarrow> nid \<Rightarrow> entry \<Rightarrow> event \<Rightarrow> world
     \<Rightarrow> error option \<times> event \<times> world" where
  "executeListner fns this en e w =
     (case (if once en
            then removeEventListener this (etype e) (listener en) (capture en) w
            else (None, w)) of
        (Some err, w1) \<Rightarrow> (Some err, e, w1)
      | (None, w1) \<Rightarrow>
          (case exec_body (fns (listener en) this e w1) e w1 of
             (x, e', w2) \<Rightarrow>
               (let w3 = (case x of
                            None \<Rightarrow> w2
                          | Some err \<Rightarrow> w2\<lparr>console := console w2 @ [err]\<rparr>)
                in (None, e', w3\<lparr>calls := calls w3 @
                                  [\<lparr>receiver = this, registration = en,
                                    event_after = e', raised = x\<rparr>]\<rparr>))))"

text \<open>
  The \<^verbatim>\<open>for (const entry of [...listeners])\<close> loops of \<^verbatim>\<open>_invokeListeners\<close> and
  \<^verbatim>\<open>_invokeListenersAtTarget\<close>, over the copy of the array.
\<close>

fun invoke_loop ::
  "(lid \<Rightarrow> listener_fn) \<Rightarrow> nid \<Rightarrow> bool \<Rightarrow> entry list \<Rightarrow> event \<Rightarrow> world
     \<Rightarrow> error option \<times> event \<times> world"
where
  "invoke_loop fns this forCapture [] e w = (None, e, w)"
| "invoke_loop fns this forCapture (en # rest) e w =
     (if capture en \<noteq> forCapture then invoke_loop fns this forCapture rest e w
      else case executeListner fns this en e w of
             (Some err, e', w') \<Rightarrow> (Some err, e', w')
           | (None, e', w') \<Rightarrow>
               if immediatePropagationStopped e' then (None, e', w')
               else invoke_loop fns this forCapture rest e' w')"

text \<open>
  \<^verbatim>\<open>if (!listeners) return;\<close> lets an inherited value through, and spreading it with
  \<^verbatim>\<open>[...listeners]\<close> throws.
\<close>

definition invokeListeners ::
  "(lid \<Rightarrow> listener_fn) \<Rightarrow> nid \<Rightarrow> event \<Rightarrow> bool \<Rightarrow> world
     \<Rightarrow> error option \<times> event \<times> world" where
  "invokeListeners fns this e forCapture w =
     (case registry_get w this (etype e) of
        Undefined \<Rightarrow> (None, e, w)
      | Array ls \<Rightarrow> invoke_loop fns this forCapture ls e w
      | Foreign \<Rightarrow> (Some (TypeError ''listeners is not iterable''), e, w))"

fun target_loop ::
  "(lid \<Rightarrow> listener_fn) \<Rightarrow> nid \<Rightarrow> entry list \<Rightarrow> event \<Rightarrow> world
     \<Rightarrow> error option \<times> event \<times> world"
where
  "target_loop fns this [] e w = (None, e, w)"
| "target_loop fns this (en # rest) e w =
     (case executeListner fns this en e w of
        (Some err, e', w') \<Rightarrow> (Some err, e', w')
      | (None, e', w') \<Rightarrow>
          if immediatePropagationStopped e' then (None, e', w')
          else target_loop fns this rest e' w')"

definition invokeListenersAtTarget ::
  "(lid \<Rightarrow> listener_fn) \<Rightarrow> nid \<Rightarrow> event \<Rightarrow> world \<Rightarrow> error option \<times> event \<times> world"
where
  "invokeListenersAtTarget fns this e w =
     (case registry_get w this (etype e) of
        Undefined \<Rightarrow> (None, e, w)
      | Array ls \<Rightarrow> target_loop fns this ls e w
      | Foreign \<Rightarrow> (Some (TypeError ''listeners is not iterable''), e, w))"

text \<open>
  The \<^verbatim>\<open>while (current)\<close> loop of \<^verbatim>\<open>dispatchEvent\<close>, which collects the path by
  \<^verbatim>\<open>unshift\<close>. It follows parent references and does not return when they run in a
  circle: the loop has no exit then, and goes on for as long as the machine lets the
  path grow.
\<close>

partial_function (option) path_loop ::
  "(nid \<Rightarrow> nid option) \<Rightarrow> nid option \<Rightarrow> nid list \<Rightarrow> nid list option" where
  "path_loop pn current path =
     (case current of
        None \<Rightarrow> Some path
      | Some c \<Rightarrow> path_loop pn (pn c) (c # path))"

declare path_loop.simps [code]

text \<open>
  The two \<^verbatim>\<open>for\<close> loops over the path. Both have the same body up to the flag handed to
  \<^verbatim>\<open>_invokeListeners\<close>: the capture loop runs over \<open>path[0 .. length - 2]\<close> upwards, the
  bubble loop over the same indices downwards.
\<close>

fun propagate ::
  "(lid \<Rightarrow> listener_fn) \<Rightarrow> bool \<Rightarrow> nid list \<Rightarrow> event \<Rightarrow> world
     \<Rightarrow> error option \<times> event \<times> world" where
  "propagate fns forCapture [] e w = (None, e, w)"
| "propagate fns forCapture (n # ns) e w =
     (if propagationStopped e then (None, e, w)
      else case invokeListeners fns n (e\<lparr>currentTarget := Some n\<rparr>) forCapture w of
             (Some err, e', w') \<Rightarrow> (Some err, e', w')
           | (None, e', w') \<Rightarrow> propagate fns forCapture ns e' w')"

definition dispatch_phases ::
  "(lid \<Rightarrow> listener_fn) \<Rightarrow> nid \<Rightarrow> nid list \<Rightarrow> event \<Rightarrow> world
     \<Rightarrow> (error + bool) \<times> event \<times> world"
where
  "dispatch_phases fns this path e0 w =
     (case propagate fns True (butlast path) (e0\<lparr>phase := CAPTURING_PHASE\<rparr>) w of
        (Some err, e2, w2) \<Rightarrow> (Inl err, e2, w2)
      | (None, e2, w2) \<Rightarrow>
          (case (if \<not> propagationStopped e2
                 then invokeListenersAtTarget fns this
                        (e2\<lparr>phase := AT_TARGET, currentTarget := Some this\<rparr>) w2
                 else (None, e2, w2)) of
             (Some err, e3, w3) \<Rightarrow> (Inl err, e3, w3)
           | (None, e3, w3) \<Rightarrow>
               (case (if \<not> propagationStopped e3 \<and> bubbles e3
                      then propagate fns False (rev (butlast path))
                             (e3\<lparr>phase := BUBBLING_PHASE\<rparr>) w3
                      else (None, e3, w3)) of
                  (Some err, e4, w4) \<Rightarrow> (Inl err, e4, w4)
                | (None, e4, w4) \<Rightarrow> (Inr (\<not> defaultPrevented e4), e4, w4))))"

text \<open>
  \<^verbatim>\<open>dispatchEvent\<close>. \<open>None\<close> stands for a call that does not return, the path loop
  having no end; otherwise the model gives the boolean returned (\<open>Inr\<close>) or the
  exception thrown to the caller (\<open>Inl\<close>), with the event and the store as they are
  then.
\<close>

definition dispatchEvent ::
  "(lid \<Rightarrow> listener_fn) \<Rightarrow> nid \<Rightarrow> event \<Rightarrow> world
     \<Rightarrow> ((error + bool) \<times> event \<times> world) option" where
  "dispatchEvent fns this ev w =
     (case path_loop (parentNode w) (Some this) [] of
        None \<Rightarrow> None
      | Some path \<Rightarrow> Some (dispatch_phases fns this path (ev\<lparr>target := Some this\<rparr>) w))"

section \<open>Notions the properties are stated with\<close>

text \<open>The registrations of a node for an event type; none when the key is absent.\<close>

definition regs :: "world \<Rightarrow> nid \<Rightarrow> string \<Rightarrow> entry list" where
  "regs w n ty = (case listeners w n ty of None \<Rightarrow> [] | Some xs \<Rightarrow> xs)"

text \<open>
  A node is readable for an event type when reading its registry under that type does
  not find an inherited value. No operation removes a key from a registry (\<open>kept\<close>), so
  a readable node stays readable.
\<close>

definition readable :: "world \<Rightarrow> nid \<Rightarrow> string \<Rightarrow> bool" where
  "readable w n ty \<longleftrightarrow> registry_get w n ty \<noteq> Foreign"

definition kept :: "world \<Rightarrow> world \<Rightarrow> bool" where
  "kept w w' \<longleftrightarrow> (\<forall>n ty. listeners w n ty \<noteq> None \<longrightarrow> listeners w' n ty \<noteq> None)"

text \<open>
  \<open>ancestry pn (Some n) ch\<close>: following the parent references from \<open>n\<close> one meets the
  nodes of \<open>ch\<close>, \<open>n\<close> first, and ends at a node without parent.
\<close>

fun ancestry :: "(nid \<Rightarrow> nid option) \<Rightarrow> nid option \<Rightarrow> nid list \<Rightarrow> bool" where
  "ancestry pn None [] = True"
| "ancestry pn None (x # xs) = False"
| "ancestry pn (Some c) [] = False"
| "ancestry pn (Some c) (x # xs) = (x = c \<and> ancestry pn (pn c) xs)"

text \<open>
  The two stop flags as the methods of \<^verbatim>\<open>Event\<close> can leave them: the immediate flag is
  never set without the other.
\<close>

definition event_ok :: "event \<Rightarrow> bool" where
  "event_ok e \<longleftrightarrow> (immediatePropagationStopped e \<longrightarrow> propagationStopped e)"

text \<open>What a listener can do to an event: the configuration stays, the flags only rise.\<close>

definition evolves :: "event \<Rightarrow> event \<Rightarrow> bool" where
  "evolves e e' \<longleftrightarrow>
     etype e' = etype e \<and> bubbles e' = bubbles e \<and> cancelable e' = cancelable e \<and>
     (propagationStopped e \<longrightarrow> propagationStopped e') \<and>
     (immediatePropagationStopped e \<longrightarrow> immediatePropagationStopped e') \<and>
     (defaultPrevented e' \<longrightarrow> defaultPrevented e \<or> cancelable e) \<and>
     (event_ok e \<longrightarrow> event_ok e')"

text \<open>The exceptions raised in a list of calls, in order.\<close>

fun reports :: "call list \<Rightarrow> error list" where
  "reports [] = []"
| "reports (c # cs) = (case raised c of None \<Rightarrow> reports cs | Some err \<Rightarrow> err # reports cs)"

text \<open>
  The calls \<open>cs\<close> made by one per-node loop over the snapshot \<open>snap\<close>, entered with
  event \<open>e\<close> and left with \<open>e'\<close>.
\<close>

definition iteration :: "nid \<Rightarrow> entry list \<Rightarrow> event \<Rightarrow> call list \<Rightarrow> event \<Rightarrow> bool" where
  "iteration this snap e cs e' \<longleftrightarrow>
     prefix (map registration cs) snap \<and>
     (\<not> immediatePropagationStopped e' \<longrightarrow> map registration cs = snap) \<and>
     evolves e e' \<and> phase e' = phase e \<and>
     (\<forall>c\<in>set cs. receiver c = this \<and> phase (event_after c) = phase e \<and>
        evolves e (event_after c) \<and> evolves (event_after c) e') \<and>
     (\<forall>c\<in>set (butlast cs). \<not> immediatePropagationStopped (event_after c))"

text \<open>
  A successful registration in a script that goes on: the store after the call of
  \<^verbatim>\<open>addEventListener\<close>.
\<close>

definition register :: "nid \<Rightarrow> string \<Rightarrow> lid \<Rightarrow> bool \<Rightarrow> bool \<Rightarrow> world \<Rightarrow> world" where
  "register this ty l cap onc w = snd (addEventListener this ty l cap onc w)"

text \<open>A call as the ordering claims see it: receiver, registration, phase.\<close>

definition view :: "call \<Rightarrow> nid \<times> entry \<times> nat" where
  "view c = (receiver c, registration c, phase (event_after c))"

text \<open>
  \<open>halts\<close>: after a call that left \<open>propagationStopped\<close> set, all later calls are on the
  same node in the same phase. \<open>halts_now\<close>: a call that left
  \<open>immediatePropagationStopped\<close> set is the last one.
\<close>

fun halts :: "call list \<Rightarrow> bool" where
  "halts [] = True"
| "halts (c # ys) =
     ((propagationStopped (event_after c) \<longrightarrow>
         (\<forall>d\<in>set ys. receiver d = receiver c \<and>
            phase (event_after d) = phase (event_after c))) \<and>
      halts ys)"

fun halts_now :: "call list \<Rightarrow> bool" where
  "halts_now [] = True"
| "halts_now (c # ys) =
     ((immediatePropagationStopped (event_after c) \<longrightarrow> ys = []) \<and> halts_now ys)"

text \<open>The calls made by one of the two loops over the path.\<close>

definition walk :: "nid list \<Rightarrow> event \<Rightarrow> call list \<Rightarrow> event \<Rightarrow> bool" where
  "walk ns e cs e' \<longleftrightarrow>
     evolves e e' \<and> phase e' = phase e \<and>
     (propagationStopped e \<longrightarrow> cs = []) \<and>
     (\<forall>c\<in>set cs. receiver c \<in> set ns \<and> phase (event_after c) = phase e \<and>
        evolves e (event_after c) \<and> evolves (event_after c) e') \<and>
     halts cs \<and> (event_ok e \<longrightarrow> halts_now cs)"

text \<open>A stretch of a dispatch: a phase, or several in a row.\<close>

definition segment :: "event \<Rightarrow> call list \<Rightarrow> event \<Rightarrow> bool" where
  "segment e cs e' \<longleftrightarrow>
     evolves e e' \<and> (propagationStopped e \<longrightarrow> cs = []) \<and>
     (\<forall>c\<in>set cs. evolves e (event_after c) \<and> evolves (event_after c) e') \<and>
     halts cs \<and> (event_ok e \<longrightarrow> halts_now cs)"

text \<open>
  Plain listeners: they never call \<^verbatim>\<open>stopPropagation\<close>, \<^verbatim>\<open>stopImmediatePropagation\<close>,
  \<^verbatim>\<open>addEventListener\<close> or \<^verbatim>\<open>removeEventListener\<close>. They may call \<^verbatim>\<open>preventDefault\<close>,
  mutate the tree and throw.
\<close>

fun plain_stmt :: "stmt \<Rightarrow> bool" where
  "plain_stmt StopPropagation = False"
| "plain_stmt StopImmediatePropagation = False"
| "plain_stmt (AddEventListener n ty l cap onc) = False"
| "plain_stmt (RemoveEventListener n ty l cap) = False"
| "plain_stmt s = True"

definition plain :: "(lid \<Rightarrow> listener_fn) \<Rightarrow> bool" where
  "plain fns \<longleftrightarrow> (\<forall>l this e w. list_all plain_stmt (fns l this e w))"

text \<open>An event with both stop flags unset, as the constructor leaves it.\<close>

definition fresh :: "event \<Rightarrow> bool" where
  "fresh e \<longleftrightarrow> \<not> propagationStopped e \<and> \<not> immediatePropagationStopped e"

text \<open>
  A registration is struck by a snapshot when a one-shot registration of the snapshot has
  its callback and capture flag: those are the registrations the one-shot removal deletes.
\<close>

definition struck :: "entry list \<Rightarrow> entry \<Rightarrow> bool" where
  "struck snap x \<longleftrightarrow>
     (\<exists>en\<in>set snap. once en \<and> listener en = listener x \<and> capture en = capture x)"

text \<open>
  The order of invocation as the specification words it (section 4.2, steps 3 to 5), for
  a path given root first and target last, from the registries as they are when the
  dispatch starts.
\<close>

definition schedule :: "world \<Rightarrow> nid list \<Rightarrow> event \<Rightarrow> (nid \<times> entry \<times> nat) list" where
  "schedule w path e =
     concat (map (\<lambda>n. map (\<lambda>en. (n, en, CAPTURING_PHASE))
                         (filter (\<lambda>en. capture en) (regs w n (etype e))))
                 (butlast path))
     @ map (\<lambda>en. (last path, en, AT_TARGET)) (regs w (last path) (etype e))
     @ (if bubbles e
        then concat (map (\<lambda>n. map (\<lambda>en. (n, en, BUBBLING_PHASE))
                              (filter (\<lambda>en. \<not> capture en) (regs w n (etype e))))
                      (rev (butlast path)))
        else [])"



text \<open>
  The tree invariants. \<open>parent_rel\<close> relates a parent to its child; a well-founded
  \<open>parent_rel\<close> has no cycle and no endless ascent, so every ancestor chain is finite.
\<close>

definition parent_rel :: "world \<Rightarrow> (nid \<times> nid) set" where
  "parent_rel w = {(p, c). parentNode w c = Some p}"

definition wf_tree :: "world \<Rightarrow> bool" where
  "wf_tree w \<longleftrightarrow>
     (\<forall>p c. c \<in> set (childNodes w p) \<longleftrightarrow> parentNode w c = Some p) \<and>
     (\<forall>p. distinct (childNodes w p)) \<and>
     wf (parent_rel w)"

text \<open>
  \<^verbatim>\<open>replaceChild\<close> takes the index of the old child before it detaches the new one. The
  index is stale afterwards when the new child is a child of the receiver that stands
  before the old one, or is the old child itself and not the last child.
\<close>

definition stale_index :: "world \<Rightarrow> nid \<Rightarrow> nid \<Rightarrow> nid \<Rightarrow> bool" where
  "stale_index w this newChild oldChild \<longleftrightarrow>
     (case (indexOf (childNodes w this) newChild, indexOf (childNodes w this) oldChild) of
        (Some k, Some i) \<Rightarrow> k < i \<or> (k = i \<and> Suc i < length (childNodes w this))
      | _ \<Rightarrow> False)"

section \<open>Example stores and listeners\<close>

text \<open>
  The store in which every object is as its constructor leaves it: no listeners, no
  parent, no children.
\<close>

definition blank :: world where
  "blank = \<lparr>listeners = (\<lambda>n ty. None), parentNode = (\<lambda>n. None), childNodes = (\<lambda>n. []),
            calls = [], console = []\<rparr>"

text \<open>The chain of the spec's examples: root 0, its child A = 1, and B = 2 under A.\<close>

definition chain3 :: world where
  "chain3 = snd (appendChild 1 2 (snd (appendChild 0 1 blank)))"

text \<open>
  Listener 1 removes listener 2 and registers listener 3, both on node 0 for \<open>click\<close>,
  the node and type it is itself registered for in \<open>two_listeners\<close>.
\<close>

definition meddler :: "lid \<Rightarrow> listener_fn" where
  "meddler l this e w =
     (if l = 1 then [RemoveEventListener 0 ''click'' 2 False,
                     AddEventListener 0 ''click'' 3 False False]
      else [])"

definition two_listeners :: world where
  "two_listeners =
     register 0 ''click'' 2 False False
       (register 0 ''click'' 1 False False blank)"

text \<open>Listeners with an empty body.\<close>

definition quiet :: "lid \<Rightarrow> listener_fn" where
  "quiet l this e w = []"

text \<open>A parentless node 5 with a capture and a non-capture registration.\<close>

definition both_kinds :: world where
  "both_kinds =
     register 5 ''click'' 2 False False
       (register 5 ''click'' 1 True False blank)"

text \<open>Listener 1 calls \<^verbatim>\<open>stopImmediatePropagation\<close>.\<close>

definition first_halts :: "lid \<Rightarrow> listener_fn" where
  "first_halts l this e w = (if l = 1 then [StopImmediatePropagation] else [])"

text \<open>
  Listener 10 calls \<^verbatim>\<open>stopPropagation\<close>. In \<open>stop_at_root\<close> it is the first of two capture
  listeners of the root; A and B have listeners too.
\<close>

definition stopper :: "lid \<Rightarrow> listener_fn" where
  "stopper l this e w = (if l = 10 then [StopPropagation] else [])"

definition stop_at_root :: world where
  "stop_at_root =
     register 2 ''click'' 14 False False
    (register 1 ''click'' 13 False False
    (register 1 ''click'' 12 True False
    (register 0 ''click'' 11 True False
    (register 0 ''click'' 10 True False chain3))))"

text \<open>Node 0 appended to itself: it is its own parent.\<close>

definition knot :: world where
  "knot = snd (appendChild 0 0 blank)"

text \<open>
  Listener 20 calls \<^verbatim>\<open>stopImmediatePropagation\<close>. In \<open>stop_at_target\<close> it is the first of
  two listeners of B; A and the root have bubble listeners.
\<close>

definition halter :: "lid \<Rightarrow> listener_fn" where
  "halter l this e w = (if l = 20 then [StopImmediatePropagation] else [])"

definition stop_at_target :: world where
  "stop_at_target =
     register 0 ''click'' 23 False False
    (register 1 ''click'' 22 False False
    (register 2 ''click'' 21 False False
    (register 2 ''click'' 20 False False chain3)))"

text \<open>Every listener calls \<^verbatim>\<open>preventDefault\<close> twice.\<close>

definition preventer :: "lid \<Rightarrow> listener_fn" where
  "preventer l this e w = [PreventDefault, PreventDefault]"

definition one_listener :: world where
  "one_listener = register 2 ''click'' 30 False False chain3"

text \<open>
  The scene of the ordering example: a capture listener on the root, a capture and a
  non-capture listener on B, a non-capture listener on A.
\<close>

definition scene :: world where
  "scene =
     register 1 ''click'' 13 False False
    (register 2 ''click'' 12 False False
    (register 2 ''click'' 11 True False
    (register 0 ''click'' 10 True False chain3)))"

text \<open>
  Listeners 10 and 11 throw; listener 13 asks node 0 to remove node 2, which is no child
  of it, so the tree operation throws inside the listener.
\<close>

definition thrower :: "lid \<Rightarrow> listener_fn" where
  "thrower l this e w =
     (if l = 10 \<or> l = 11 then [Throw ''boom'']
      else if l = 13 then [RemoveChild 0 2]
      else [])"





text \<open>Node 0 with the children 1 and 2; node 3 is detached.\<close>

definition family :: world where
  "family = snd (appendChild 0 2 (snd (appendChild 0 1 blank)))"

section \<open>Properties\<close>

lemma evolves_refl: "evolves e e"
  by (simp add: evolves_def)

lemma evolves_fields:
  "evolves e (e\<lparr>currentTarget := x\<rparr>)" "evolves e (e\<lparr>phase := p\<rparr>)"
  "evolves e (e\<lparr>target := y\<rparr>)" "evolves e (e\<lparr>phase := p, currentTarget := x\<rparr>)"
  by (simp_all add: evolves_def event_ok_def)

lemma reports_append: "reports (xs @ ys) = reports xs @ reports ys"
  by (induction xs) (auto split: option.splits)

lemma evolves_trans: "evolves a b \<Longrightarrow> evolves b c \<Longrightarrow> evolves a c"
  by (auto simp: evolves_def)

lemma kept_refl: "kept w w"
  by (simp add: kept_def)

lemma kept_trans: "kept a b \<Longrightarrow> kept b c \<Longrightarrow> kept a c"
  by (simp add: kept_def)

lemma kept_same: "listeners w' = listeners w \<Longrightarrow> kept w w'"
  by (simp add: kept_def)

lemma readable_iff: "readable w n ty \<longleftrightarrow> \<not> inherited ty \<or> listeners w n ty \<noteq> None"
  by (auto simp: readable_def registry_get_def split: option.splits)

lemma kept_readable: "kept w w' \<Longrightarrow> readable w n ty \<Longrightarrow> readable w' n ty"
  unfolding readable_iff kept_def by blast

lemma readable_plain_type: "\<not> inherited ty \<Longrightarrow> readable w n ty"
  by (simp add: readable_def registry_get_def split: option.splits)

lemma regs_unreadable: "\<not> readable w n ty \<Longrightarrow> regs w n ty = []"
  by (simp add: readable_def registry_get_def regs_def split: option.splits if_splits)

subsection \<open>Frame lemmas\<close>

lemma addEventListener_frame:
  "addEventListener n ty l c onc w = (x, w') \<Longrightarrow>
     calls w' = calls w \<and> console w' = console w \<and> kept w w'"
  by (auto simp: addEventListener_def kept_def split: slot.splits)

lemma removeEventListener_frame:
  "removeEventListener n ty l c w = (x, w') \<Longrightarrow>
     calls w' = calls w \<and> console w' = console w \<and> kept w w'"
  by (auto simp: removeEventListener_def kept_def split: slot.splits)

lemma removeEventListener_throws:
  "removeEventListener n ty l c w = (Some err, w') \<Longrightarrow> w' = w \<and> \<not> readable w n ty"
  by (auto simp: removeEventListener_def readable_def split: slot.splits)


lemma removeChild_frame:
  "removeChild p c w = (r, w') \<Longrightarrow>
     listeners w' = listeners w \<and> calls w' = calls w \<and> console w' = console w"
  by (auto simp: removeChild_def Let_def split: option.splits)

lemma detach_frame:
  "detach c w = (r, w') \<Longrightarrow>
     listeners w' = listeners w \<and> calls w' = calls w \<and> console w' = console w"
  by (auto simp: detach_def split: option.splits dest: removeChild_frame)

lemma appendChild_frame:
  "appendChild p c w = (r, w') \<Longrightarrow>
     listeners w' = listeners w \<and> calls w' = calls w \<and> console w' = console w"
  by (auto simp: appendChild_def Let_def split: prod.splits sum.splits dest: detach_frame)

lemma insertBefore_frame:
  "insertBefore p c x w = (r, w') \<Longrightarrow>
     listeners w' = listeners w \<and> calls w' = calls w \<and> console w' = console w"
  by (auto simp: insertBefore_def Let_def split: option.splits prod.splits sum.splits
      dest: detach_frame appendChild_frame)

lemma replaceChild_frame:
  "replaceChild p c d w = (r, w') \<Longrightarrow>
     listeners w' = listeners w \<and> calls w' = calls w \<and> console w' = console w"
  by (auto simp: replaceChild_def Let_def split: option.splits prod.splits sum.splits
      dest: detach_frame)

lemma tree_call_frame:
  assumes "tree_call (r, w1) e = (x, e', w')"
  shows "e' = e \<and> w' = w1"
  using assms by (auto simp: tree_call_def split: sum.splits)

lemma exec_stmt_evolves:
  "exec_stmt s e w = (x, e', w') \<Longrightarrow> evolves e e' \<and> phase e' = phase e"
  by (cases s)
     (auto simp: evolves_def event_ok_def stopPropagation_def stopImmediatePropagation_def
        preventDefault_def tree_call_def registry_call_def
      split: if_splits prod.splits sum.splits)

lemma exec_body_evolves:
  "exec_body ss e w = (x, e', w') \<Longrightarrow> evolves e e' \<and> phase e' = phase e"
proof (induction ss arbitrary: e w)
  case Nil
  then show ?case by (simp add: evolves_refl)
next
  case (Cons s ss)
  obtain y e1 w1 where s: "exec_stmt s e w = (y, e1, w1)"
    by (cases "exec_stmt s e w") auto
  have e1: "evolves e e1 \<and> phase e1 = phase e" using s by (rule exec_stmt_evolves)
  show ?case
  proof (cases y)
    case None
    with Cons.prems s have "exec_body ss e1 w1 = (x, e', w')" by simp
    then have "evolves e1 e' \<and> phase e' = phase e1" by (rule Cons.IH)
    with e1 show ?thesis by (auto intro: evolves_trans)
  next
    case (Some err)
    with Cons.prems s have "e' = e1" by simp
    with e1 show ?thesis by simp
  qed
qed

lemma exec_stmt_log:
  assumes "exec_stmt s e w = (x, e', w')"
  shows "calls w' = calls w \<and> console w' = console w \<and> kept w w'"
proof (cases s)
  case (AddEventListener n ty l c onc)
  with assms show ?thesis
    by (cases "addEventListener n ty l c onc w")
       (auto simp: registry_call_def dest: addEventListener_frame)
next
  case (RemoveEventListener n ty l c)
  with assms show ?thesis
    by (cases "removeEventListener n ty l c w")
       (auto simp: registry_call_def dest: removeEventListener_frame)
next
  case (AppendChild p c)
  with assms show ?thesis
    by (cases "appendChild p c w")
       (auto simp: tree_call_def split: sum.splits dest: appendChild_frame intro: kept_same)
next
  case (InsertBefore p c r)
  with assms show ?thesis
    by (cases "insertBefore p c r w")
       (auto simp: tree_call_def split: sum.splits dest: insertBefore_frame intro: kept_same)
next
  case (RemoveChild p c)
  with assms show ?thesis
    by (cases "removeChild p c w")
       (auto simp: tree_call_def split: sum.splits dest: removeChild_frame intro: kept_same)
next
  case (ReplaceChild p c d)
  with assms show ?thesis
    by (cases "replaceChild p c d w")
       (auto simp: tree_call_def split: sum.splits dest: replaceChild_frame intro: kept_same)
qed (use assms in \<open>auto simp: kept_refl\<close>)

lemma exec_body_log:
  "exec_body ss e w = (x, e', w') \<Longrightarrow>
     calls w' = calls w \<and> console w' = console w \<and> kept w w'"
proof (induction ss arbitrary: e w)
  case Nil
  then show ?case by (simp add: kept_refl)
next
  case (Cons s ss)
  obtain y e1 w1 where s: "exec_stmt s e w = (y, e1, w1)"
    by (cases "exec_stmt s e w") auto
  have l: "calls w1 = calls w \<and> console w1 = console w \<and> kept w w1"
    using s by (rule exec_stmt_log)
  show ?case
  proof (cases y)
    case None
    with Cons.prems s have "exec_body ss e1 w1 = (x, e', w')" by simp
    then have "calls w' = calls w1 \<and> console w' = console w1 \<and> kept w1 w'"
      by (rule Cons.IH)
    with l show ?thesis by (auto intro: kept_trans)
  next
    case (Some err)
    with Cons.prems s have "w' = w1" by simp
    with l show ?thesis by simp
  qed
qed

text \<open>
  \<^verbatim>\<open>_executeListner\<close> throws only from its one-shot removal, on an unreadable node, and
  then has done nothing. Otherwise: what one listener call does to the event and to the
  two logs.
\<close>

lemma executeListner_throws:
  assumes "executeListner fns this en e w = (Some err, e', w')"
  shows "e' = e \<and> w' = w \<and> \<not> readable w this (etype e)"
proof -
  obtain y w1 where r: "(if once en
      then removeEventListener this (etype e) (listener en) (capture en) w
      else (None, w)) = (y, w1)"
    by (cases "(if once en
      then removeEventListener this (etype e) (listener en) (capture en) w
      else (None, w))") auto
  with assms have y: "y = Some err" "e' = e" "w' = w1"
    by (auto simp: executeListner_def Let_def split: option.splits prod.splits)
  with r have "removeEventListener this (etype e) (listener en) (capture en) w = (Some err, w1)"
    by (auto split: if_splits)
  from removeEventListener_throws [OF this] y show ?thesis by simp
qed

lemma executeListner_summary:
  assumes "executeListner fns this en e w = (None, e', w')"
  shows "evolves e e' \<and> phase e' = phase e \<and> kept w w' \<and>
         (\<exists>x. calls w' = calls w @
                 [\<lparr>receiver = this, registration = en, event_after = e', raised = x\<rparr>] \<and>
              console w' = console w @ (case x of None \<Rightarrow> [] | Some err \<Rightarrow> [err]))"
proof -
  obtain y w1 where r: "(if once en
      then removeEventListener this (etype e) (listener en) (capture en) w
      else (None, w)) = (y, w1)"
    by (cases "(if once en
      then removeEventListener this (etype e) (listener en) (capture en) w
      else (None, w))") auto
  obtain x e2 w2 where b: "exec_body (fns (listener en) this e w1) e w1 = (x, e2, w2)"
    by (cases "exec_body (fns (listener en) this e w1) e w1") auto
  from assms r have y: "y = None"
    by (cases y) (auto simp: executeListner_def)
  have l1: "calls w1 = calls w \<and> console w1 = console w \<and> kept w w1"
    using r by (auto split: if_splits dest: removeEventListener_frame simp: kept_refl)
  have l2: "calls w2 = calls w1 \<and> console w2 = console w1 \<and> kept w1 w2"
    using b by (rule exec_body_log)
  have ev: "evolves e e2 \<and> phase e2 = phase e" using b by (rule exec_body_evolves)
  from assms r y b have *: "e' = e2 \<and>
    w' = (case x of None \<Rightarrow> w2 | Some err \<Rightarrow> w2\<lparr>console := console w2 @ [err]\<rparr>)
           \<lparr>calls := calls w2 @
              [\<lparr>receiver = this, registration = en, event_after = e2, raised = x\<rparr>]\<rparr>"
    unfolding executeListner_def Let_def
    by (cases x) auto
  show ?thesis
  proof (intro conjI exI [of _ x])
    show "evolves e e'" using * ev by simp
    show "phase e' = phase e" using * ev by simp
    have "listeners w' = listeners w2" using * by (cases x) simp_all
    then have "kept w2 w'" by (rule kept_same)
    with l1 l2 show "kept w w'" by (auto intro: kept_trans)
    show "calls w' = calls w @
       [\<lparr>receiver = this, registration = en, event_after = e', raised = x\<rparr>]"
      using * l1 l2 by simp
    show "console w' = console w @ (case x of None \<Rightarrow> [] | Some err \<Rightarrow> [err])"
      using * l1 l2 by (cases x) simp_all
  qed
qed

subsection \<open>One iteration over a snapshot\<close>

lemma invoke_loop_filter:
  "invoke_loop fns this fc snap e w =
     target_loop fns this (filter (\<lambda>en. capture en = fc) snap) e w"
  by (induction snap arbitrary: e w) (auto split: prod.splits option.splits)

lemma target_loop_iteration:
  "readable w this (etype e) \<Longrightarrow> target_loop fns this snap e w = (x, e', w') \<Longrightarrow>
     x = None \<and> kept w w' \<and>
     (\<exists>cs. calls w' = calls w @ cs \<and> console w' = console w @ reports cs \<and>
          iteration this snap e cs e')"
proof (induction snap arbitrary: e w)
  case Nil
  then show ?case by (simp add: iteration_def evolves_refl kept_refl)
next
  case (Cons en rest)
  obtain y e1 w1 where x: "executeListner fns this en e w = (y, e1, w1)"
    by (cases "executeListner fns this en e w") auto
  have y: "y = None"
  proof (cases y)
    case (Some err)
    with x executeListner_throws [of fns this en e w err e1 w1] Cons.prems(1)
    show ?thesis by simp
  qed simp
  from executeListner_summary [OF x [unfolded y]] obtain r where
    ev: "evolves e e1" and ph: "phase e1 = phase e" and kp: "kept w w1" and
    c: "calls w1 = calls w @
          [\<lparr>receiver = this, registration = en, event_after = e1, raised = r\<rparr>]" and
    k: "console w1 = console w @ (case r of None \<Rightarrow> [] | Some err \<Rightarrow> [err])"
    by blast
  let ?c = "\<lparr>receiver = this, registration = en, event_after = e1, raised = r\<rparr>"
  show ?case
  proof (cases "immediatePropagationStopped e1")
    case True
    with Cons.prems(2) x y have "x = None" "e' = e1" "w' = w1" by simp_all
    with c k ev ph kp True have
      "x = None \<and> kept w w' \<and> calls w' = calls w @ [?c] \<and>
       console w' = console w @ reports [?c] \<and> iteration this (en # rest) e [?c] e'"
      by (cases r) (simp_all add: iteration_def evolves_refl)
    then show ?thesis by blast
  next
    case False
    with Cons.prems(2) x y have t: "target_loop fns this rest e1 w1 = (x, e', w')" by simp
    have ty: "etype e1 = etype e" using ev by (simp add: evolves_def)
    have rd: "readable w1 this (etype e1)"
      using kept_readable [OF kp Cons.prems(1)] ty by simp
    from Cons.IH [OF rd t] obtain cs where
      n: "x = None" and kp2: "kept w1 w'" and
      c2: "calls w' = calls w1 @ cs" and k2: "console w' = console w1 @ reports cs" and
      it: "iteration this rest e1 cs e'"
      by blast
    have "iteration this (en # rest) e (?c # cs) e'"
      using it ev ph False
      by (auto simp: iteration_def intro: evolves_trans)
    moreover have "calls w' = calls w @ ?c # cs" using c c2 by simp
    moreover have "console w' = console w @ reports (?c # cs)"
      using k k2 by (cases r) simp_all
    moreover have "kept w w'" using kp kp2 by (rule kept_trans)
    ultimately show ?thesis using n by blast
  qed
qed

subsection \<open>The path\<close>

lemma path_loop_ancestry:
  "ancestry pn cur ch \<Longrightarrow> path_loop pn cur acc = Some (rev ch @ acc)"
proof (induction ch arbitrary: cur acc)
  case Nil
  then show ?case by (cases cur) (simp_all add: path_loop.simps)
next
  case (Cons x xs)
  then obtain c where c: "cur = Some c" "x = c" "ancestry pn (pn c) xs"
    by (cases cur) auto
  from Cons.IH [OF c(3)] have "path_loop pn (pn c) (c # acc) = Some (rev xs @ c # acc)" .
  with c show ?case by (subst path_loop.simps) simp
qed

lemma ancestry_root: "pn t = None \<Longrightarrow> ancestry pn (Some t) [t]"
  by simp

lemma ancestry_nonempty: "ancestry pn (Some t) ch \<Longrightarrow> ch \<noteq> [] \<and> hd ch = t"
  by (cases ch) auto

lemma path_loop_Some:
  assumes "path_loop pn cur acc = Some p"
  shows "\<exists>ch. ancestry pn cur ch \<and> p = rev ch @ acc"
proof (rule path_loop.raw_induct
    [where P = "\<lambda>pn cur acc p. \<exists>ch. ancestry pn cur ch \<and> p = rev ch @ acc", OF _ assms])
  fix f :: "(nid \<Rightarrow> nid option) \<Rightarrow> nid option \<Rightarrow> nid list \<Rightarrow> nid list option"
  fix pn cur acc p
  assume IH: "\<And>pn cur acc p. f pn cur acc = Some p
      \<Longrightarrow> \<exists>ch. ancestry pn cur ch \<and> p = rev ch @ acc"
  assume step: "(case cur of None \<Rightarrow> Some acc | Some c \<Rightarrow> f pn (pn c) (c # acc)) = Some p"
  show "\<exists>ch. ancestry pn cur ch \<and> p = rev ch @ acc"
  proof (cases cur)
    case None
    with step have "ancestry pn cur [] \<and> p = rev [] @ acc" by simp
    then show ?thesis by blast
  next
    case (Some c)
    with step have "f pn (pn c) (c # acc) = Some p" by simp
    from IH [OF this] obtain ch where "ancestry pn (pn c) ch" "p = rev ch @ c # acc"
      by blast
    with Some have "ancestry pn cur (c # ch) \<and> p = rev (c # ch) @ acc" by simp
    then show ?thesis by blast
  qed
qed

lemma invokeListenersAtTarget_regs:
  "readable w this (etype e) \<Longrightarrow>
     invokeListenersAtTarget fns this e w = target_loop fns this (regs w this (etype e)) e w"
  by (auto simp: invokeListenersAtTarget_def regs_def readable_def registry_get_def
      split: option.splits if_splits)

lemma invokeListeners_regs:
  "readable w this (etype e) \<Longrightarrow>
     invokeListeners fns this e fc w =
       target_loop fns this (filter (\<lambda>en. capture en = fc) (regs w this (etype e))) e w"
  by (auto simp: invokeListeners_def regs_def invoke_loop_filter readable_def registry_get_def
      split: option.splits if_splits)

lemma invokeListenersAtTarget_unreadable:
  "\<not> readable w this (etype e) \<Longrightarrow>
     invokeListenersAtTarget fns this e w =
       (Some (TypeError ''listeners is not iterable''), e, w)"
  by (simp add: invokeListenersAtTarget_def readable_def)

lemma invokeListeners_unreadable:
  "\<not> readable w this (etype e) \<Longrightarrow>
     invokeListeners fns this e fc w = (Some (TypeError ''listeners is not iterable''), e, w)"
  by (simp add: invokeListeners_def readable_def)

text \<open>
  Either per-node function, on any node: it throws exactly on an unreadable node, having
  done nothing, and otherwise runs its loop over the snapshot.
\<close>

lemma node_iteration:
  assumes "readable w n (etype e) \<longrightarrow> target_loop fns n snap e w = (x, e', w')"
      and "\<not> readable w n (etype e) \<longrightarrow>
             snap = [] \<and> (x, e', w') = (Some (TypeError ''listeners is not iterable''), e, w)"
  shows "kept w w' \<and>
         (\<exists>cs. calls w' = calls w @ cs \<and> console w' = console w @ reports cs \<and>
               iteration n snap e cs e') \<and>
         (readable w n (etype e) \<longrightarrow> x = None) \<and>
         (\<not> readable w n (etype e) \<longrightarrow>
            x = Some (TypeError ''listeners is not iterable'') \<and> e' = e \<and> w' = w)"
proof (cases "readable w n (etype e)")
  case True
  with assms(1) have "target_loop fns n snap e w = (x, e', w')" by simp
  from target_loop_iteration [OF True this] True show ?thesis by simp
next
  case False
  with assms(2) have "snap = []" "x = Some (TypeError ''listeners is not iterable'')"
    "e' = e" "w' = w"
    by simp_all
  moreover have "calls w = calls w @ [] \<and> console w = console w @ reports [] \<and>
      iteration n [] e [] e"
    by (simp add: iteration_def evolves_refl)
  ultimately show ?thesis using False by (auto simp: kept_refl)
qed

lemma invokeListenersAtTarget_iteration:
  assumes "invokeListenersAtTarget fns n e w = (x, e', w')"
  shows "kept w w' \<and>
         (\<exists>cs. calls w' = calls w @ cs \<and> console w' = console w @ reports cs \<and>
               iteration n (regs w n (etype e)) e cs e') \<and>
         (readable w n (etype e) \<longrightarrow> x = None) \<and>
         (\<not> readable w n (etype e) \<longrightarrow>
            x = Some (TypeError ''listeners is not iterable'') \<and> e' = e \<and> w' = w)"
  using assms
  by (intro node_iteration)
     (auto simp: invokeListenersAtTarget_regs invokeListenersAtTarget_unreadable
        regs_unreadable)

lemma invokeListeners_iteration:
  assumes "invokeListeners fns n e fc w = (x, e', w')"
  shows "kept w w' \<and>
         (\<exists>cs. calls w' = calls w @ cs \<and> console w' = console w @ reports cs \<and>
               iteration n (filter (\<lambda>en. capture en = fc) (regs w n (etype e))) e cs e') \<and>
         (readable w n (etype e) \<longrightarrow> x = None) \<and>
         (\<not> readable w n (etype e) \<longrightarrow>
            x = Some (TypeError ''listeners is not iterable'') \<and> e' = e \<and> w' = w)"
  using assms
  by (intro node_iteration)
     (auto simp: invokeListeners_regs invokeListeners_unreadable regs_unreadable)

lemma dispatchEvent_ancestry:
  "ancestry (parentNode w) (Some t) ch \<Longrightarrow>
     dispatchEvent fns t ev w =
       Some (dispatch_phases fns t (rev ch) (ev\<lparr>target := Some t\<rparr>) w)"
  by (simp add: dispatchEvent_def path_loop_ancestry)

lemma indexOf_None: "indexOf xs x = None \<longleftrightarrow> x \<notin> set xs"
  by (induction xs) auto

text \<open>
  Claim C6. When \<open>x\<close> is not among the children of \<open>R\<close>, each of \<open>R.removeChild(x)\<close>,
  \<open>R.replaceChild(n, x)\<close> and \<open>R.insertBefore(n, x)\<close> throws its error, and the store it
  leaves is the store it was given: no children list, no parent reference and no
  attachment of \<open>n\<close> has changed.
\<close>

theorem not_a_child_fails:
  assumes "x \<notin> set (childNodes w R)"
  shows "removeChild R x w = (Inl (Error ''Node not found''), w) \<and>
         replaceChild R n x w = (Inl (Error ''Node not Found''), w) \<and>
         insertBefore R n (Some x) w = (Inl (Error ''Reference node not found''), w)"
proof -
  from assms have "indexOf (childNodes w R) x = None" by (simp add: indexOf_None)
  then show ?thesis by (simp add: removeChild_def replaceChild_def insertBefore_def)
qed

text \<open>
  Claim C2. Both per-node loops run over the registrations the node had for the event type
  when the loop was entered (those with the requested capture flag for
  \<^verbatim>\<open>_invokeListeners\<close>, all of them for \<^verbatim>\<open>_invokeListenersAtTarget\<close>), whatever the
  listeners do to the live registry meanwhile: the registrations invoked are an initial
  part of that list, in its order, each once, and the whole list unless a listener has set
  \<open>immediatePropagationStopped\<close>. So no registration of the snapshot is skipped or invoked
  twice, and none added during the loop is invoked by it.
\<close>

theorem snapshot_iteration:
  assumes "invokeListeners fns this e forCapture w = (x1, e1, w1)"
      and "invokeListenersAtTarget fns this e w = (x2, e2, w2)"
  shows "(\<exists>cs. calls w1 = calls w @ cs \<and> (\<forall>c\<in>set cs. receiver c = this) \<and>
            prefix (map registration cs)
              (filter (\<lambda>en. capture en = forCapture) (regs w this (etype e))) \<and>
            (\<not> immediatePropagationStopped e1 \<longrightarrow>
               map registration cs =
                 filter (\<lambda>en. capture en = forCapture) (regs w this (etype e)))) \<and>
         (\<exists>cs. calls w2 = calls w @ cs \<and> (\<forall>c\<in>set cs. receiver c = this) \<and>
            prefix (map registration cs) (regs w this (etype e)) \<and>
            (\<not> immediatePropagationStopped e2 \<longrightarrow>
               map registration cs = regs w this (etype e)))"
proof
  from invokeListeners_iteration [OF assms(1)]
  show "\<exists>cs. calls w1 = calls w @ cs \<and> (\<forall>c\<in>set cs. receiver c = this) \<and>
            prefix (map registration cs)
              (filter (\<lambda>en. capture en = forCapture) (regs w this (etype e))) \<and>
            (\<not> immediatePropagationStopped e1 \<longrightarrow>
               map registration cs =
                 filter (\<lambda>en. capture en = forCapture) (regs w this (etype e)))"
    unfolding iteration_def by blast
next
  from invokeListenersAtTarget_iteration [OF assms(2)]
  show "\<exists>cs. calls w2 = calls w @ cs \<and> (\<forall>c\<in>set cs. receiver c = this) \<and>
            prefix (map registration cs) (regs w this (etype e)) \<and>
            (\<not> immediatePropagationStopped e2 \<longrightarrow>
               map registration cs = regs w this (etype e))"
    unfolding iteration_def by blast
qed

text \<open>
  Claim C10, as amended. For a node without parent the path is the node alone. A dispatch
  on it, of an event that bubbles or not, ends and invokes listeners of that node only,
  all in the target phase, in the order of their registration for the event type: all of
  them when the event did not arrive with \<open>propagationStopped\<close> set and no listener has
  set \<open>immediatePropagationStopped\<close>, and otherwise an initial part of them: none when
  the event arrived stopped, and none after a listener that left
  \<open>immediatePropagationStopped\<close> set. The dispatch returns the negation of
  \<open>defaultPrevented\<close> when the node does not hold, under the event's type, a property
  inherited from \<^verbatim>\<open>Object.prototype\<close> (\<open>readable\<close>).
\<close>

theorem parentless_target_only:
  assumes "parentNode w t = None"
  shows "path_loop (parentNode w) (Some t) [] = Some [t] \<and>
         (\<exists>x e' w' cs. dispatchEvent fns t e w = Some (x, e', w') \<and>
            calls w' = calls w @ cs \<and>
            (\<forall>c\<in>set cs. receiver c = t \<and> phase (event_after c) = AT_TARGET) \<and>
            prefix (map registration cs) (regs w t (etype e)) \<and>
            (\<not> propagationStopped e \<and> \<not> immediatePropagationStopped e' \<longrightarrow>
               map registration cs = regs w t (etype e)) \<and>
            (propagationStopped e \<longrightarrow> cs = []) \<and>
            (\<forall>c\<in>set (butlast cs). \<not> immediatePropagationStopped (event_after c)) \<and>
            (readable w t (etype e) \<longrightarrow> x = Inr (\<not> defaultPrevented e')))"
proof
  have a: "ancestry (parentNode w) (Some t) [t]" using assms(1) by simp
  from path_loop_ancestry [OF a, of "[]"]
  show "path_loop (parentNode w) (Some t) [] = Some [t]" by simp
  show "\<exists>x e' w' cs. dispatchEvent fns t e w = Some (x, e', w') \<and>
            calls w' = calls w @ cs \<and>
            (\<forall>c\<in>set cs. receiver c = t \<and> phase (event_after c) = AT_TARGET) \<and>
            prefix (map registration cs) (regs w t (etype e)) \<and>
            (\<not> propagationStopped e \<and> \<not> immediatePropagationStopped e' \<longrightarrow>
               map registration cs = regs w t (etype e)) \<and>
            (propagationStopped e \<longrightarrow> cs = []) \<and>
            (\<forall>c\<in>set (butlast cs). \<not> immediatePropagationStopped (event_after c)) \<and>
            (readable w t (etype e) \<longrightarrow> x = Inr (\<not> defaultPrevented e'))"
  proof (cases "propagationStopped e")
    case True
    let ?e = "e\<lparr>target := Some t, phase := CAPTURING_PHASE\<rparr>"
    have "dispatchEvent fns t e w = Some (Inr (\<not> defaultPrevented ?e), ?e, w)"
      using True by (simp add: dispatchEvent_ancestry [OF a] dispatch_phases_def)
    with True show ?thesis by simp
  next
    case False
    let ?e = "e\<lparr>target := Some t, phase := AT_TARGET, currentTarget := Some t\<rparr>"
    obtain y e3 w3 where t: "invokeListenersAtTarget fns t ?e w = (y, e3, w3)"
      by (cases "invokeListenersAtTarget fns t ?e w") auto
    from invokeListenersAtTarget_iteration [OF t] obtain cs where
      cs: "calls w3 = calls w @ cs" and it: "iteration t (regs w t (etype e)) ?e cs e3" and
      rd: "readable w t (etype e) \<longrightarrow> y = None"
      by auto
    define e4 where "e4 = (if y = None \<and> \<not> propagationStopped e3 \<and> bubbles e3
        then e3\<lparr>phase := BUBBLING_PHASE\<rparr> else e3)"
    define x where
      "x = (case y of None \<Rightarrow> Inr (\<not> defaultPrevented e4) | Some err \<Rightarrow> Inl err)"
    have d: "dispatchEvent fns t e w = Some (x, e4, w3)"
      using False t
      by (cases y)
         (simp_all add: dispatchEvent_ancestry [OF a] dispatch_phases_def e4_def x_def)
    have i: "immediatePropagationStopped e4 = immediatePropagationStopped e3"
      by (simp add: e4_def)
    have r: "readable w t (etype e) \<longrightarrow> x = Inr (\<not> defaultPrevented e4)"
      using rd by (simp add: x_def)
    show ?thesis
      using d cs it i r False unfolding iteration_def by auto
  qed
qed

lemmas run_defs =
  dispatchEvent_def path_loop.simps dispatch_phases_def invokeListeners_def
  invokeListenersAtTarget_def executeListner_def removeEventListener_def
  addEventListener_def register_def registry_get_def registry_call_def inherited_def
  object_prototype_keys_def appendChild_def detach_def removeChild_def blank_def chain3_def
  new_Event_def stopPropagation_def stopImmediatePropagation_def preventDefault_def
  view_def

theorem not_a_child_fails_witness:
  "2 \<notin> set (childNodes (snd (appendChild 0 1 blank)) 0) \<and>
   removeChild 0 2 (snd (appendChild 0 1 blank))
     = (Inl (Error ''Node not found''), snd (appendChild 0 1 blank)) \<and>
   replaceChild 0 3 2 (snd (appendChild 0 1 blank))
     = (Inl (Error ''Node not Found''), snd (appendChild 0 1 blank)) \<and>
   insertBefore 0 3 (Some 2) (snd (appendChild 0 1 blank))
     = (Inl (Error ''Reference node not found''), snd (appendChild 0 1 blank))"
proof -
  have h: "2 \<notin> set (childNodes (snd (appendChild 0 1 blank)) 0)"
    by (simp add: run_defs)
  from h not_a_child_fails [OF h, of 3] show ?thesis by simp
qed

lemma two_listeners_regs:
  "regs two_listeners 0 ''click'' =
     [\<lparr>listener = 1, capture = False, once = False\<rparr>,
      \<lparr>listener = 2, capture = False, once = False\<rparr>]"
  by (simp add: two_listeners_def run_defs regs_def)

lemma meddler_run:
  "invokeListeners meddler 0 (new_Event ''click'' True False) False two_listeners
     = (x1, e1, w1)
   \<Longrightarrow> x1 = None \<and> \<not> immediatePropagationStopped e1 \<and> calls two_listeners = [] \<and>
       regs w1 0 ''click'' =
         [\<lparr>listener = 1, capture = False, once = False\<rparr>,
          \<lparr>listener = 3, capture = False, once = False\<rparr>]"
  by (auto simp add: run_defs two_listeners_def regs_def meddler_def)

lemma meddler_run_target:
  "invokeListenersAtTarget meddler 0 (new_Event ''click'' True False) two_listeners
     = (x2, e2, w2)
   \<Longrightarrow> \<not> immediatePropagationStopped e2"
  by (auto simp add: run_defs two_listeners_def meddler_def)

theorem snapshot_iteration_witness:
  "map registration
     (calls (snd (snd (invokeListeners meddler 0 (new_Event ''click'' True False) False
                         two_listeners))))
     = [\<lparr>listener = 1, capture = False, once = False\<rparr>,
        \<lparr>listener = 2, capture = False, once = False\<rparr>] \<and>
   regs (snd (snd (invokeListeners meddler 0 (new_Event ''click'' True False) False
                     two_listeners)))
     0 ''click''
     = [\<lparr>listener = 1, capture = False, once = False\<rparr>,
        \<lparr>listener = 3, capture = False, once = False\<rparr>] \<and>
   map registration
     (calls (snd (snd (invokeListenersAtTarget meddler 0 (new_Event ''click'' True False)
                         two_listeners))))
     = [\<lparr>listener = 1, capture = False, once = False\<rparr>,
        \<lparr>listener = 2, capture = False, once = False\<rparr>]"
proof -
  obtain x1 e1 w1 where
    r: "invokeListeners meddler 0 (new_Event ''click'' True False) False two_listeners
          = (x1, e1, w1)"
    by (cases "invokeListeners meddler 0 (new_Event ''click'' True False) False two_listeners")
  obtain x2 e2 w2 where
    t: "invokeListenersAtTarget meddler 0 (new_Event ''click'' True False) two_listeners
          = (x2, e2, w2)"
    by (cases "invokeListenersAtTarget meddler 0 (new_Event ''click'' True False)
                 two_listeners")
  have ty: "etype (new_Event ''click'' True False) = ''click''" by (simp add: new_Event_def)
  from snapshot_iteration [OF r t] meddler_run [OF r] meddler_run_target [OF t]
  show ?thesis
    by (auto simp: r t ty two_listeners_regs)
qed

lemma both_kinds_eval:
  "parentNode both_kinds 5 = None"
  "regs both_kinds 5 ''click'' = [\<lparr>listener = 1, capture = True, once = False\<rparr>,
      \<lparr>listener = 2, capture = False, once = False\<rparr>]"
  "calls both_kinds = []"
  by (simp_all add: both_kinds_def run_defs regs_def)

lemma both_kinds_dispatch:
  "dispatchEvent quiet 5 (new_Event ''click'' True False) both_kinds = Some (x, e', w')
    \<Longrightarrow> \<not> immediatePropagationStopped e' \<and> x = Inr True"
  by (auto simp add: run_defs both_kinds_def quiet_def)

theorem parentless_target_only_witness:
  "parentNode both_kinds 5 = None \<and>
   \<not> propagationStopped (new_Event ''click'' True False) \<and>
   (\<exists>e' w'. dispatchEvent quiet 5 (new_Event ''click'' True False) both_kinds
        = Some (Inr True, e', w') \<and>
      (\<forall>c\<in>set (calls w'). receiver c = 5 \<and> phase (event_after c) = AT_TARGET) \<and>
      map registration (calls w') =
        [\<lparr>listener = 1, capture = True, once = False\<rparr>,
         \<lparr>listener = 2, capture = False, once = False\<rparr>])"
proof -
  have h1: "parentNode both_kinds 5 = None" by (simp add: both_kinds_eval)
  have h2: "\<not> propagationStopped (new_Event ''click'' True False)"
    by (simp add: new_Event_def)
  have ty: "etype (new_Event ''click'' True False) = ''click''" by (simp add: new_Event_def)
  from parentless_target_only [OF h1, of quiet "new_Event ''click'' True False"]
  obtain x e' w' cs where
    d: "dispatchEvent quiet 5 (new_Event ''click'' True False) both_kinds = Some (x, e', w')"
    and c: "calls w' = calls both_kinds @ cs"
    and p: "\<forall>c\<in>set cs. receiver c = 5 \<and> phase (event_after c) = AT_TARGET"
    and f: "\<not> propagationStopped (new_Event ''click'' True False) \<and>
           \<not> immediatePropagationStopped e' \<longrightarrow>
           map registration cs = regs both_kinds 5 (etype (new_Event ''click'' True False))"
    by blast
  from both_kinds_dispatch [OF d] f c p h2 have *:
    "x = Inr True \<and>
     (\<forall>c\<in>set (calls w'). receiver c = 5 \<and> phase (event_after c) = AT_TARGET) \<and>
      map registration (calls w') =
        [\<lparr>listener = 1, capture = True, once = False\<rparr>,
         \<lparr>listener = 2, capture = False, once = False\<rparr>]"
    by (simp add: both_kinds_eval ty)
  show ?thesis
    using d h1 h2 * by (intro conjI exI [of _ e'] exI [of _ w']) simp_all
qed

text \<open>
  The claim as it was stated fails on an event that is stopped already, which a second
  dispatch of the same event can be: no listener is invoked. And it fails to the letter
  when the first listener calls \<^verbatim>\<open>stopImmediatePropagation\<close>: the second is not invoked.
\<close>

theorem parentless_target_only_counterexample:
  "parentNode both_kinds 5 = None \<and>
   map listener (regs both_kinds 5 ''click'') = [1, 2] \<and>
   map_option (\<lambda>x. map registration (calls (snd (snd x))))
     (dispatchEvent quiet 5 (stopPropagation (new_Event ''click'' True False)) both_kinds)
     = Some [] \<and>
   map_option (\<lambda>x. map registration (calls (snd (snd x))))
     (dispatchEvent first_halts 5 (new_Event ''click'' True False) both_kinds)
     = Some [\<lparr>listener = 1, capture = True, once = False\<rparr>]"
  by (simp add: run_defs both_kinds_def quiet_def first_halts_def regs_def)

subsection \<open>Where a dispatch stops\<close>

lemma halts_uniform:
  "\<forall>c\<in>set cs. receiver c = n \<and> phase (event_after c) = p \<Longrightarrow> halts cs"
  by (induction cs) auto

lemma halts_now_butlast:
  "\<forall>c\<in>set (butlast cs). \<not> immediatePropagationStopped (event_after c) \<Longrightarrow> halts_now cs"
  by (induction cs) (auto split: if_splits)

lemma halts_append:
  "halts xs \<Longrightarrow> halts ys \<Longrightarrow>
   ((\<exists>c\<in>set xs. propagationStopped (event_after c)) \<longrightarrow> ys = []) \<Longrightarrow> halts (xs @ ys)"
  by (induction xs) auto

lemma halts_now_append:
  "halts_now xs \<Longrightarrow> halts_now ys \<Longrightarrow>
   ((\<exists>c\<in>set xs. immediatePropagationStopped (event_after c)) \<longrightarrow> ys = []) \<Longrightarrow>
   halts_now (xs @ ys)"
  by (induction xs) auto

lemma halts_split:
  "halts (xs @ c # ys) \<Longrightarrow> propagationStopped (event_after c) \<Longrightarrow> d \<in> set ys \<Longrightarrow>
     receiver d = receiver c \<and> phase (event_after d) = phase (event_after c)"
  by (induction xs) auto

lemma halts_now_split:
  "halts_now (xs @ c # ys) \<Longrightarrow> immediatePropagationStopped (event_after c) \<Longrightarrow> ys = []"
  by (induction xs) auto

lemma evolves_stopped:
  "evolves e e' \<Longrightarrow> propagationStopped e \<Longrightarrow> propagationStopped e'"
  by (simp add: evolves_def)

lemma evolves_ok: "evolves e e' \<Longrightarrow> event_ok e \<Longrightarrow> event_ok e'"
  by (simp add: evolves_def)

lemma iteration_walk:
  assumes it: "iteration n snap e cs e'"
  shows "halts cs \<and> halts_now cs \<and>
         ((\<exists>c\<in>set cs. propagationStopped (event_after c)) \<longrightarrow> propagationStopped e') \<and>
         (event_ok e \<longrightarrow>
            (\<exists>c\<in>set cs. immediatePropagationStopped (event_after c)) \<longrightarrow>
            propagationStopped e')"
proof (intro conjI)
  from it have "\<forall>c\<in>set cs. receiver c = n \<and> phase (event_after c) = phase e"
    by (simp add: iteration_def)
  then show "halts cs" by (rule halts_uniform)
  from it show "halts_now cs" by (simp add: iteration_def halts_now_butlast)
  from it show "(\<exists>c\<in>set cs. propagationStopped (event_after c)) \<longrightarrow> propagationStopped e'"
    by (auto simp: iteration_def dest: evolves_stopped)
  from it show "event_ok e \<longrightarrow>
            (\<exists>c\<in>set cs. immediatePropagationStopped (event_after c)) \<longrightarrow>
            propagationStopped e'"
    by (auto simp: iteration_def evolves_def event_ok_def)
qed

lemma unreadable_inherited: "\<not> readable w n ty \<Longrightarrow> inherited ty"
  using readable_plain_type [of ty w n] by blast

lemma walk_empty: "walk ns e [] e"
  by (simp add: walk_def evolves_refl)

text \<open>
  A loop over the path: its calls, and how it ends. It throws only the \<open>TypeError\<close> of
  spreading an inherited value, and not at all when every node it visits is readable.
\<close>

lemma propagate_walk:
  "propagate fns fc ns e w = (x, e', w') \<Longrightarrow>
     kept w w' \<and>
     (\<exists>cs. calls w' = calls w @ cs \<and> console w' = console w @ reports cs \<and>
           walk ns e cs e') \<and>
     (x \<noteq> None \<longrightarrow>
        x = Some (TypeError ''listeners is not iterable'') \<and> inherited (etype e)) \<and>
     ((\<forall>n\<in>set ns. readable w n (etype e)) \<longrightarrow> x = None)"
proof (induction ns arbitrary: e w)
  case Nil
  then have "x = None" "e' = e" "w' = w" by simp_all
  moreover have "calls w = calls w @ [] \<and> console w = console w @ reports [] \<and>
      walk [] e [] e"
    by (simp add: walk_empty)
  ultimately show ?case by (auto simp: kept_refl)
next
  case (Cons n ns)
  show ?case
  proof (cases "propagationStopped e")
    case True
    with Cons.prems have "x = None" "e' = e" "w' = w" by simp_all
    moreover have "calls w = calls w @ [] \<and> console w = console w @ reports [] \<and>
        walk (n # ns) e [] e"
      by (simp add: walk_empty)
    ultimately show ?thesis by (auto simp: kept_refl)
  next
    case False
    let ?e0 = "e\<lparr>currentTarget := Some n\<rparr>"
    let ?snap = "filter (\<lambda>en. capture en = fc) (regs w n (etype ?e0))"
    obtain y e1 w1 where i: "invokeListeners fns n ?e0 fc w = (y, e1, w1)"
      by (cases "invokeListeners fns n ?e0 fc w") auto
    from invokeListeners_iteration [OF i] obtain cs1 where
      kp1: "kept w w1" and
      c1: "calls w1 = calls w @ cs1" and k1: "console w1 = console w @ reports cs1" and
      it: "iteration n ?snap ?e0 cs1 e1" and
      rd: "readable w n (etype e) \<longrightarrow> y = None" and
      ur: "\<not> readable w n (etype e) \<longrightarrow> y = Some (TypeError ''listeners is not iterable'')"
      by auto
    have e0: "evolves e ?e0" by (rule evolves_fields)
    have e01: "evolves ?e0 e1" "phase e1 = phase e" using it by (simp_all add: iteration_def)
    have ty: "etype e1 = etype e" using e01(1) by (simp add: evolves_def)
    have rest: "kept w1 w' \<and>
       (\<exists>cs2. calls w' = calls w1 @ cs2 \<and> console w' = console w1 @ reports cs2 \<and>
              walk ns e1 cs2 e') \<and>
       (x \<noteq> None \<longrightarrow>
          x = Some (TypeError ''listeners is not iterable'') \<and> inherited (etype e)) \<and>
       ((\<forall>m\<in>set (n # ns). readable w m (etype e)) \<longrightarrow> x = None)"
    proof (cases y)
      case (Some err)
      with Cons.prems i False have r: "x = y" "e' = e1" "w' = w1" by simp_all
      from Some rd have nr: "\<not> readable w n (etype e)" by auto
      with ur have "y = Some (TypeError ''listeners is not iterable'')" by simp
      moreover have "inherited (etype e)" using nr by (rule unreadable_inherited)
      moreover have "calls w1 = calls w1 @ [] \<and> console w1 = console w1 @ reports [] \<and>
          walk ns e1 [] e1"
        by (simp add: walk_empty)
      ultimately show ?thesis using r nr by (auto simp: kept_refl)
    next
      case None
      with Cons.prems i False have p: "propagate fns fc ns e1 w1 = (x, e', w')" by simp
      from Cons.IH [OF p] have
        a: "kept w1 w'" and
        b: "\<exists>cs2. calls w' = calls w1 @ cs2 \<and> console w' = console w1 @ reports cs2 \<and>
              walk ns e1 cs2 e'" and
        c: "x \<noteq> None \<longrightarrow>
              x = Some (TypeError ''listeners is not iterable'') \<and> inherited (etype e1)" and
        d: "(\<forall>m\<in>set ns. readable w1 m (etype e1)) \<longrightarrow> x = None"
        by simp_all
      have "(\<forall>m\<in>set (n # ns). readable w m (etype e)) \<longrightarrow> x = None"
        using d kept_readable [OF kp1] ty by auto
      with a b c ty show ?thesis by simp
    qed
    then obtain cs2 where
      kp2: "kept w1 w'" and
      c2: "calls w' = calls w1 @ cs2" and k2: "console w' = console w1 @ reports cs2" and
      wk: "walk ns e1 cs2 e'" and
      out: "x \<noteq> None \<longrightarrow>
          x = Some (TypeError ''listeners is not iterable'') \<and> inherited (etype e)"
        "(\<forall>m\<in>set (n # ns). readable w m (etype e)) \<longrightarrow> x = None"
      by blast
    have e1': "evolves e1 e'" "phase e' = phase e1" using wk by (simp_all add: walk_def)
    note tr = evolves_trans
    have ee1: "evolves e e1" using e0 e01(1) by (rule tr)
    have a: "evolves e e'" using ee1 e1'(1) by (rule tr)
    have b: "\<forall>c\<in>set cs1. receiver c \<in> set (n # ns) \<and> phase (event_after c) = phase e \<and>
               evolves e (event_after c) \<and> evolves (event_after c) e'"
      using it e0 e1'(1) by (auto simp: iteration_def intro: tr)
    have c: "\<forall>c\<in>set cs2. receiver c \<in> set (n # ns) \<and> phase (event_after c) = phase e \<and>
               evolves e (event_after c) \<and> evolves (event_after c) e'"
      using wk ee1 e01(2) by (auto simp: walk_def intro: tr)
    from iteration_walk [OF it] have
      h1: "halts cs1" and n1: "halts_now cs1" and
      s1: "(\<exists>c\<in>set cs1. propagationStopped (event_after c)) \<longrightarrow> propagationStopped e1" and
      s2: "event_ok ?e0 \<longrightarrow> (\<exists>c\<in>set cs1. immediatePropagationStopped (event_after c)) \<longrightarrow>
             propagationStopped e1"
      by simp_all
    have stop2: "propagationStopped e1 \<longrightarrow> cs2 = []" using wk by (simp add: walk_def)
    have d: "halts (cs1 @ cs2)"
      using h1 wk s1 stop2 by (intro halts_append) (auto simp: walk_def)
    have ok: "event_ok e \<longrightarrow> event_ok ?e0 \<and> event_ok e1"
      using e0 ee1 by (auto dest: evolves_ok)
    have f: "event_ok e \<longrightarrow> halts_now (cs1 @ cs2)"
    proof
      assume o: "event_ok e"
      with ok wk have "halts_now cs2" by (simp add: walk_def)
      moreover have "(\<exists>c\<in>set cs1. immediatePropagationStopped (event_after c)) \<longrightarrow> cs2 = []"
        using s2 ok o stop2 by blast
      ultimately show "halts_now (cs1 @ cs2)" using n1 by (intro halts_now_append)
    qed
    have "walk (n # ns) e (cs1 @ cs2) e'"
      unfolding walk_def using a e01(2) e1'(2) False b c d f by auto
    moreover have "calls w' = calls w @ cs1 @ cs2" using c1 c2 by simp
    moreover have "console w' = console w @ reports (cs1 @ cs2)"
      using k1 k2 by (simp add: reports_append)
    moreover have "kept w w'" using kp1 kp2 by (rule kept_trans)
    ultimately show ?thesis using out by blast
  qed
qed

lemma segment_empty: "segment e [] e"
  by (simp add: segment_def evolves_refl)

lemma segment_pre: "evolves e e0 \<Longrightarrow> segment e0 cs e' \<Longrightarrow> segment e cs e'"
  unfolding segment_def
  by (auto intro: evolves_trans dest: evolves_stopped evolves_ok)

lemma segment_append:
  assumes x: "segment e xs e1" and y: "segment e1 ys e'"
  shows "segment e (xs @ ys) e'"
proof -
  have e1: "evolves e e1" and e2: "evolves e1 e'" using x y by (simp_all add: segment_def)
  have s: "(\<exists>c\<in>set xs. propagationStopped (event_after c)) \<longrightarrow> ys = []"
    using x y by (auto simp: segment_def dest: evolves_stopped)
  have h: "halts (xs @ ys)"
    using x y s by (intro halts_append) (simp_all add: segment_def)
  have n: "event_ok e \<longrightarrow> halts_now (xs @ ys)"
  proof
    assume o: "event_ok e"
    then have o1: "event_ok e1" using e1 by (rule evolves_ok [rotated])
    have "\<forall>c\<in>set xs. event_ok (event_after c)"
      using x o by (auto simp: segment_def dest: evolves_ok)
    then have "(\<exists>c\<in>set xs. immediatePropagationStopped (event_after c)) \<longrightarrow> ys = []"
      using s by (auto simp: event_ok_def)
    then show "halts_now (xs @ ys)"
      using x y o o1 by (intro halts_now_append) (simp_all add: segment_def)
  qed
  have a: "\<forall>c\<in>set xs. evolves e (event_after c) \<and> evolves (event_after c) e'"
    using x e2 by (auto simp: segment_def intro: evolves_trans)
  have b: "\<forall>c\<in>set ys. evolves e (event_after c) \<and> evolves (event_after c) e'"
    using y e1 by (auto simp: segment_def intro: evolves_trans)
  have c: "propagationStopped e \<longrightarrow> xs @ ys = []"
    using x y e1 by (auto simp: segment_def dest: evolves_stopped)
  show ?thesis
    unfolding segment_def using e1 e2 a b c h n by (auto intro: evolves_trans)
qed

lemma walk_segment: "walk ns e cs e' \<Longrightarrow> segment e cs e'"
  by (simp add: walk_def segment_def)

lemma propagate_segment:
  assumes "propagate fns fc ns (e\<lparr>phase := p\<rparr>) w = (x, e', w')"
  shows "kept w w' \<and>
         (\<exists>cs. calls w' = calls w @ cs \<and> console w' = console w @ reports cs \<and>
               segment e cs e') \<and>
         (x \<noteq> None \<longrightarrow>
            x = Some (TypeError ''listeners is not iterable'') \<and> inherited (etype e)) \<and>
         ((\<forall>n\<in>set ns. readable w n (etype e)) \<longrightarrow> x = None)"
proof -
  from propagate_walk [OF assms] obtain cs where
    k: "kept w w'" and
    c: "calls w' = calls w @ cs" "console w' = console w @ reports cs" and
    wk: "walk ns (e\<lparr>phase := p\<rparr>) cs e'" and
    o: "x \<noteq> None \<longrightarrow>
          x = Some (TypeError ''listeners is not iterable'') \<and> inherited (etype e)"
       "(\<forall>n\<in>set ns. readable w n (etype e)) \<longrightarrow> x = None"
    by auto
  from wk have "segment e cs e'"
    by (auto intro: segment_pre [OF evolves_fields(2)] walk_segment)
  with k c o show ?thesis by blast
qed

lemma target_segment:
  assumes "(if \<not> propagationStopped e
            then invokeListenersAtTarget fns t (e\<lparr>phase := p, currentTarget := c\<rparr>) w
            else (None, e, w)) = (x, e', w')"
  shows "kept w w' \<and>
         (\<exists>cs. calls w' = calls w @ cs \<and> console w' = console w @ reports cs \<and>
               segment e cs e') \<and>
         (x \<noteq> None \<longrightarrow>
            x = Some (TypeError ''listeners is not iterable'') \<and> inherited (etype e)) \<and>
         (readable w t (etype e) \<longrightarrow> x = None)"
proof (cases "propagationStopped e")
  case True
  with assms have "x = None" "e' = e" "w' = w" by simp_all
  moreover have "calls w = calls w @ [] \<and> console w = console w @ reports [] \<and>
      segment e [] e"
    by (simp add: segment_empty)
  ultimately show ?thesis by (auto simp: kept_refl)
next
  case False
  let ?e = "e\<lparr>phase := p, currentTarget := c\<rparr>"
  from assms False have i: "invokeListenersAtTarget fns t ?e w = (x, e', w')" by simp
  from invokeListenersAtTarget_iteration [OF i] obtain cs where
    k: "kept w w'" and
    cc: "calls w' = calls w @ cs" "console w' = console w @ reports cs" and
    it: "iteration t (regs w t (etype ?e)) ?e cs e'" and
    rd: "readable w t (etype e) \<longrightarrow> x = None" and
    ur: "\<not> readable w t (etype e) \<longrightarrow> x = Some (TypeError ''listeners is not iterable'')"
    by auto
  from iteration_walk [OF it] it have "segment ?e cs e'"
    using False by (simp add: segment_def iteration_def)
  then have sg: "segment e cs e'" by (rule segment_pre [OF evolves_fields(4)])
  have "x \<noteq> None \<longrightarrow>
      x = Some (TypeError ''listeners is not iterable'') \<and> inherited (etype e)"
    using rd ur unreadable_inherited [of w t "etype e"] by auto
  with k cc sg rd show ?thesis by blast
qed

lemma dispatch_phases_segment:
  assumes "dispatch_phases fns t path e0 w = (x, e', w')"
  shows "(\<exists>cs. calls w' = calls w @ cs \<and> console w' = console w @ reports cs \<and>
               segment e0 cs e') \<and>
         (case x of
            Inr r \<Rightarrow> r = (\<not> defaultPrevented e')
          | Inl err \<Rightarrow> err = TypeError ''listeners is not iterable'' \<and> inherited (etype e0)) \<and>
         ((\<forall>n\<in>set (t # butlast path). readable w n (etype e0)) \<longrightarrow>
            x = Inr (\<not> defaultPrevented e'))"
proof -
  obtain y1 e2 w2 where
    p1: "propagate fns True (butlast path) (e0\<lparr>phase := CAPTURING_PHASE\<rparr>) w = (y1, e2, w2)"
    by (cases "propagate fns True (butlast path) (e0\<lparr>phase := CAPTURING_PHASE\<rparr>) w") auto
  obtain y2 e3 w3 where
    p2: "(if \<not> propagationStopped e2
          then invokeListenersAtTarget fns t (e2\<lparr>phase := AT_TARGET, currentTarget := Some t\<rparr>) w2
          else (None, e2, w2)) = (y2, e3, w3)"
    by (cases "(if \<not> propagationStopped e2
          then invokeListenersAtTarget fns t (e2\<lparr>phase := AT_TARGET, currentTarget := Some t\<rparr>) w2
          else (None, e2, w2))") auto
  obtain y3 e4 w4 where
    p3: "(if \<not> propagationStopped e3 \<and> bubbles e3
          then propagate fns False (rev (butlast path)) (e3\<lparr>phase := BUBBLING_PHASE\<rparr>) w3
          else (None, e3, w3)) = (y3, e4, w4)"
    by (cases "(if \<not> propagationStopped e3 \<and> bubbles e3
          then propagate fns False (rev (butlast path)) (e3\<lparr>phase := BUBBLING_PHASE\<rparr>) w3
          else (None, e3, w3))") auto
  from propagate_segment [OF p1] obtain cs1 where
    k1: "kept w w2" and
    s1: "calls w2 = calls w @ cs1" "console w2 = console w @ reports cs1" "segment e0 cs1 e2"
    and o1: "y1 \<noteq> None \<longrightarrow>
          y1 = Some (TypeError ''listeners is not iterable'') \<and> inherited (etype e0)"
       "(\<forall>n\<in>set (butlast path). readable w n (etype e0)) \<longrightarrow> y1 = None"
    by auto
  have ty2: "etype e2 = etype e0" using s1(3) by (simp add: segment_def evolves_def)
  from target_segment [OF p2] obtain cs2 where
    k2: "kept w2 w3" and
    s2: "calls w3 = calls w2 @ cs2" "console w3 = console w2 @ reports cs2" "segment e2 cs2 e3"
    and o2: "y2 \<noteq> None \<longrightarrow>
          y2 = Some (TypeError ''listeners is not iterable'') \<and> inherited (etype e0)"
       "readable w2 t (etype e0) \<longrightarrow> y2 = None"
    using ty2 by auto
  have ty3: "etype e3 = etype e0" using s2(3) ty2 by (simp add: segment_def evolves_def)
  have "kept w3 w4 \<and>
        (\<exists>cs3. calls w4 = calls w3 @ cs3 \<and> console w4 = console w3 @ reports cs3 \<and>
          segment e3 cs3 e4) \<and>
        (y3 \<noteq> None \<longrightarrow>
          y3 = Some (TypeError ''listeners is not iterable'') \<and> inherited (etype e0)) \<and>
        ((\<forall>n\<in>set (butlast path). readable w3 n (etype e0)) \<longrightarrow> y3 = None)"
  proof (cases "\<not> propagationStopped e3 \<and> bubbles e3")
    case True
    with p3 have
      "propagate fns False (rev (butlast path)) (e3\<lparr>phase := BUBBLING_PHASE\<rparr>) w3
         = (y3, e4, w4)"
      by simp
    from propagate_segment [OF this] ty3 show ?thesis by simp
  next
    case False
    with p3 have "y3 = None" "e4 = e3" "w4 = w3" by auto
    moreover have "calls w3 = calls w3 @ [] \<and> console w3 = console w3 @ reports [] \<and>
        segment e3 [] e3"
      by (simp add: segment_empty)
    ultimately show ?thesis by (auto simp: kept_refl)
  qed
  then obtain cs3 where
    k3: "kept w3 w4" and
    s3: "calls w4 = calls w3 @ cs3" "console w4 = console w3 @ reports cs3" "segment e3 cs3 e4"
    and o3: "y3 \<noteq> None \<longrightarrow>
          y3 = Some (TypeError ''listeners is not iterable'') \<and> inherited (etype e0)"
       "(\<forall>n\<in>set (butlast path). readable w3 n (etype e0)) \<longrightarrow> y3 = None"
    by blast
  have rd: "(\<forall>n\<in>set (t # butlast path). readable w n (etype e0)) \<longrightarrow>
      y1 = None \<and> y2 = None \<and> y3 = None"
    using o1(2) o2(2) o3(2) kept_readable [OF k1] kept_readable [OF kept_trans [OF k1 k2]]
    by auto
  show ?thesis
  proof (cases y1)
    case (Some err)
    with assms p1 have r: "x = Inl err" "e' = e2" "w' = w2"
      by (simp_all add: dispatch_phases_def)
    with s1 o1(1) Some rd show ?thesis by auto
  next
    case n1: None
    have s12: "segment e0 (cs1 @ cs2) e3" using s1(3) s2(3) by (rule segment_append)
    show ?thesis
    proof (cases y2)
      case (Some err)
      with assms p1 p2 n1 have r: "x = Inl err" "e' = e3" "w' = w3"
        by (simp_all add: dispatch_phases_def)
      have "calls w3 = calls w @ cs1 @ cs2 \<and> console w3 = console w @ reports (cs1 @ cs2)"
        using s1 s2 by (simp add: reports_append)
      with r s12 o2(1) Some rd show ?thesis by auto
    next
      case n2: None
      have s123: "segment e0 ((cs1 @ cs2) @ cs3) e4" using s12 s3(3) by (rule segment_append)
      have l: "calls w4 = calls w @ (cs1 @ cs2) @ cs3 \<and>
          console w4 = console w @ reports ((cs1 @ cs2) @ cs3)"
        using s1 s2 s3 by (simp add: reports_append)
      show ?thesis
      proof (cases y3)
        case (Some err)
        with assms p1 p2 p3 n1 n2 have r: "x = Inl err" "e' = e4" "w' = w4"
          by (simp_all add: dispatch_phases_def)
        with l s123 o3(1) Some rd show ?thesis by auto
      next
        case None
        with assms p1 p2 p3 n1 n2 have r: "x = Inr (\<not> defaultPrevented e4)" "e' = e4" "w' = w4"
          by (auto simp: dispatch_phases_def)
        with l s123 show ?thesis by auto
      qed
    qed
  qed
qed

lemma dispatchEvent_segment:
  assumes "dispatchEvent fns t ev w = Some (x, e', w')"
  shows "(\<exists>cs. calls w' = calls w @ cs \<and> console w' = console w @ reports cs \<and>
               segment ev cs e') \<and>
         (case x of
            Inr r \<Rightarrow> r = (\<not> defaultPrevented e')
          | Inl err \<Rightarrow> err = TypeError ''listeners is not iterable'' \<and> inherited (etype ev))"
proof -
  from assms obtain path where
    "dispatch_phases fns t path (ev\<lparr>target := Some t\<rparr>) w = (x, e', w')"
    by (auto simp: dispatchEvent_def split: option.splits)
  from dispatch_phases_segment [OF this] have
    "\<exists>cs. calls w' = calls w @ cs \<and> console w' = console w @ reports cs \<and>
       segment (ev\<lparr>target := Some t\<rparr>) cs e'"
    and o: "case x of
          Inr r \<Rightarrow> r = (\<not> defaultPrevented e')
        | Inl err \<Rightarrow> err = TypeError ''listeners is not iterable'' \<and> inherited (etype ev)"
    by (simp_all split: sum.splits)
  then obtain cs where
    c: "calls w' = calls w @ cs" "console w' = console w @ reports cs" and
    sg: "segment (ev\<lparr>target := Some t\<rparr>) cs e'"
    by blast
  from sg have "segment ev cs e'" by (rule segment_pre [OF evolves_fields(3)])
  with c o show ?thesis by blast
qed

lemma dispatchEvent_returns:
  assumes "ancestry (parentNode w) (Some t) ch"
  shows "\<exists>x e' w'. dispatchEvent fns t ev w = Some (x, e', w')"
  using dispatchEvent_ancestry [OF assms, of fns ev]
  by (cases "dispatch_phases fns t (rev ch) (ev\<lparr>target := Some t\<rparr>) w") auto

lemma dispatchEvent_ends:
  assumes "dispatchEvent fns t ev w = Some (x, e', w')"
  shows "\<exists>ch. ancestry (parentNode w) (Some t) ch"
proof -
  from assms obtain path where "path_loop (parentNode w) (Some t) [] = Some path"
    by (auto simp: dispatchEvent_def split: option.splits)
  from path_loop_Some [OF this] show ?thesis by blast
qed

lemma dispatchEvent_normal:
  assumes a: "ancestry (parentNode w) (Some t) ch"
      and r: "\<forall>n\<in>set ch. readable w n (etype ev)"
  shows "\<exists>e' w'. dispatchEvent fns t ev w = Some (Inr (\<not> defaultPrevented e'), e', w')"
proof -
  from a obtain up where ch: "ch = t # up" by (cases ch) auto
  obtain x e' w' where
    d: "dispatch_phases fns t (rev ch) (ev\<lparr>target := Some t\<rparr>) w = (x, e', w')"
    by (cases "dispatch_phases fns t (rev ch) (ev\<lparr>target := Some t\<rparr>) w") auto
  have "\<forall>n\<in>set (t # butlast (rev ch)). readable w n (etype (ev\<lparr>target := Some t\<rparr>))"
    using r ch by auto
  with dispatch_phases_segment [OF d] have "x = Inr (\<not> defaultPrevented e')" by blast
  with d dispatchEvent_ancestry [OF a, of fns ev] show ?thesis by simp
qed

lemma stop_at_root_run:
  "\<exists>r e' w' c d. dispatchEvent stopper 2 (new_Event ''click'' True False) stop_at_root
       = Some (r, e', w') \<and> calls stop_at_root = [] \<and> calls w' = [c, d] \<and>
     propagationStopped (event_after c) \<and>
     view c = (0, \<lparr>listener = 10, capture = True, once = False\<rparr>, CAPTURING_PHASE) \<and>
     view d = (0, \<lparr>listener = 11, capture = True, once = False\<rparr>, CAPTURING_PHASE)"
  by (auto simp add: run_defs stop_at_root_def stopper_def)

text \<open>
  Claim C4. In the trace of a dispatch, after a call that left \<open>propagationStopped\<close> set,
  every later call is on the same node and in the same phase, that is in the same
  per-node iteration: no listener of another path node and none of a later phase is
  invoked, and the dispatch ends with the flag set. The iteration itself is not cut short
  by this flag: either per-node loop invokes its whole snapshot unless it ends with
  \<open>immediatePropagationStopped\<close> set.
\<close>

theorem stopPropagation_scope:
  assumes "dispatchEvent fns t ev w = Some (r, e', w')"
      and "calls w' = calls w @ xs @ c # ys"
      and "propagationStopped (event_after c)"
      and "invokeListeners fns n e forCapture v = (x1, e1, v1)"
      and "invokeListenersAtTarget fns n e v = (x2, e2, v2)"
  shows "(\<forall>d\<in>set ys. receiver d = receiver c \<and>
            phase (event_after d) = phase (event_after c)) \<and>
         propagationStopped e' \<and>
         (\<not> immediatePropagationStopped e1 \<longrightarrow>
            map registration (drop (length (calls v)) (calls v1)) =
              filter (\<lambda>en. capture en = forCapture) (regs v n (etype e))) \<and>
         (\<not> immediatePropagationStopped e2 \<longrightarrow>
            map registration (drop (length (calls v)) (calls v2)) = regs v n (etype e))"
proof (intro conjI)
  from dispatchEvent_segment [OF assms(1)] obtain cs where
    cs: "calls w' = calls w @ cs" and sg: "segment ev cs e'"
    by blast
  from cs assms(2) have eq: "cs = xs @ c # ys" by simp
  with sg have "halts (xs @ c # ys)" by (simp add: segment_def)
  with assms(3)
  show "\<forall>d\<in>set ys. receiver d = receiver c \<and>
            phase (event_after d) = phase (event_after c)"
    by (auto dest: halts_split)
  from sg eq have "evolves (event_after c) e'" by (simp add: segment_def)
  then show "propagationStopped e'" using assms(3) by (rule evolves_stopped)
next
  from invokeListeners_iteration [OF assms(4)]
  show "\<not> immediatePropagationStopped e1 \<longrightarrow>
            map registration (drop (length (calls v)) (calls v1)) =
              filter (\<lambda>en. capture en = forCapture) (regs v n (etype e))"
    by (auto simp: iteration_def)
next
  from invokeListenersAtTarget_iteration [OF assms(5)]
  show "\<not> immediatePropagationStopped e2 \<longrightarrow>
            map registration (drop (length (calls v)) (calls v2)) = regs v n (etype e)"
    by (auto simp: iteration_def)
qed

text \<open>
  Claim C5. For an event whose flags were only ever set through its methods (so that
  \<open>immediatePropagationStopped\<close> implies \<open>propagationStopped\<close>): in the trace of a dispatch,
  a call that left \<open>immediatePropagationStopped\<close> set is the last call. No later
  registration of the same node and no listener of any other node is invoked, and the
  dispatch ends with both flags set.
\<close>

theorem stopImmediatePropagation_ends_dispatch:
  assumes "dispatchEvent fns t ev w = Some (r, e', w')"
      and "immediatePropagationStopped ev \<longrightarrow> propagationStopped ev"
      and "calls w' = calls w @ xs @ c # ys"
      and "immediatePropagationStopped (event_after c)"
  shows "ys = [] \<and> propagationStopped e' \<and> immediatePropagationStopped e'"
proof -
  from dispatchEvent_segment [OF assms(1)] obtain cs where
    cs: "calls w' = calls w @ cs" and sg: "segment ev cs e'"
    by blast
  from cs assms(3) have eq: "cs = xs @ c # ys" by simp
  from assms(2) have ok: "event_ok ev" by (simp add: event_ok_def)
  with sg eq have "halts_now (xs @ c # ys)" by (simp add: segment_def)
  then have "ys = []" using assms(4) by (rule halts_now_split)
  moreover from sg eq have ev: "evolves ev (event_after c)" "evolves (event_after c) e'"
    by (simp_all add: segment_def)
  from ev(1) ok have "event_ok (event_after c)" by (rule evolves_ok)
  with assms(4) have "propagationStopped (event_after c)" by (simp add: event_ok_def)
  with ev(2) assms(4) have "propagationStopped e' \<and> immediatePropagationStopped e'"
    by (simp add: evolves_def)
  ultimately show ?thesis by simp
qed

subsection \<open>Dispatches that do not return\<close>

lemma self_parent: "pn n = Some n \<Longrightarrow> \<not> ancestry pn (Some n) ch"
  by (induction ch) auto

lemma dispatchEvent_endless:
  assumes "\<forall>ch. \<not> ancestry (parentNode w) (Some t) ch"
  shows "dispatchEvent fns t ev w = None"
proof (cases "dispatchEvent fns t ev w")
  case None
  then show ?thesis .
next
  case (Some res)
  obtain x e' w' where "res = (x, e', w')" by (cases res) auto
  with Some dispatchEvent_ends [of fns t ev w x e' w'] assms show ?thesis by simp
qed

lemma knot_endless: "dispatchEvent fns 0 ev knot = None"
proof -
  have "parentNode knot 0 = Some 0" by (simp add: knot_def run_defs)
  then have "\<forall>ch. \<not> ancestry (parentNode knot) (Some 0) ch" by (simp add: self_parent)
  then show ?thesis by (rule dispatchEvent_endless)
qed

lemma unreadable_throws:
  assumes "ancestry (parentNode w) (Some t) ch"
      and "\<forall>n\<in>set ch. \<not> readable w n (etype ev)"
      and "\<not> propagationStopped ev"
  shows "\<exists>e'. dispatchEvent fns t ev w =
           Some (Inl (TypeError ''listeners is not iterable''), e', w)"
proof -
  from assms(1) obtain up where ch: "ch = t # up" by (cases ch) auto
  let ?e = "ev\<lparr>target := Some t\<rparr>"
  have d: "dispatchEvent fns t ev w = Some (dispatch_phases fns t (rev ch) ?e w)"
    by (rule dispatchEvent_ancestry [OF assms(1)])
  show ?thesis
  proof (cases "rev up")
    case Nil
    then have "butlast (rev ch) = []" using ch by simp
    moreover have "\<not> readable w t (etype ev)" using assms(2) ch by simp
    then have "invokeListenersAtTarget fns t (?e\<lparr>phase := CAPTURING_PHASE\<rparr>
           \<lparr>phase := AT_TARGET, currentTarget := Some t\<rparr>) w =
         (Some (TypeError ''listeners is not iterable''),
          ?e\<lparr>phase := CAPTURING_PHASE\<rparr>\<lparr>phase := AT_TARGET, currentTarget := Some t\<rparr>, w)"
      by (simp add: invokeListenersAtTarget_unreadable)
    ultimately show ?thesis using d assms(3) by (simp add: dispatch_phases_def)
  next
    case (Cons r rest)
    then have b: "butlast (rev ch) = r # rest" using ch by simp
    have "r \<in> set ch" using Cons ch by (metis list.set_intros(1,2) set_rev)
    then have "\<not> readable w r (etype ev)" using assms(2) by simp
    then have "invokeListeners fns r
           (?e\<lparr>phase := CAPTURING_PHASE\<rparr>\<lparr>currentTarget := Some r\<rparr>) True w =
         (Some (TypeError ''listeners is not iterable''),
          ?e\<lparr>phase := CAPTURING_PHASE\<rparr>\<lparr>currentTarget := Some r\<rparr>, w)"
      by (simp add: invokeListeners_unreadable)
    then show ?thesis using d b assms(3) by (simp add: dispatch_phases_def)
  qed
qed

lemma preventDefault_idle: "\<not> cancelable e \<Longrightarrow> (preventDefault ^^ k) e = e"
  by (induction k) (simp_all add: preventDefault_def)

text \<open>
  Claim C9, as amended. An event constructed with \<open>cancelable = false\<close> is not cancelable
  and not default-prevented. On any event in that state \<^verbatim>\<open>preventDefault\<close>, called any
  number of times, changes nothing and raises nothing, and however a dispatch of it
  ends, by a return or by an exception, the event is still in that state and the value
  returned, if one is, is \<open>true\<close>. The dispatch does return \<open>true\<close> when the target has a
  finite ancestor chain and no node of the chain holds, under the event's type, a
  property inherited from \<^verbatim>\<open>Object.prototype\<close> (\<open>readable\<close>). For every event, a dispatch
  that returns returns the negation of \<open>defaultPrevented\<close> as the listeners left it.
\<close>

theorem preventDefault_not_cancelable:
  "(\<not> cancelable (new_Event ty b False) \<and> \<not> defaultPrevented (new_Event ty b False)) \<and>
   (\<forall>e::event. \<not> cancelable e \<and> \<not> defaultPrevented e \<longrightarrow>
      (preventDefault ^^ k) e = e \<and>
      (\<forall>x e' w'. dispatchEvent fns t e w = Some (x, e', w') \<longrightarrow>
         \<not> cancelable e' \<and> \<not> defaultPrevented e' \<and> x \<noteq> Inr False) \<and>
      (ancestry (parentNode w) (Some t) ch \<and> (\<forall>n\<in>set ch. readable w n (etype e)) \<longrightarrow>
         (\<exists>e' w'. dispatchEvent fns t e w = Some (Inr True, e', w')))) \<and>
   (\<forall>r e' w'. dispatchEvent fns t ev w = Some (Inr r, e', w') \<longrightarrow>
      r = (\<not> defaultPrevented e'))"
proof (intro conjI allI impI)
  show "\<not> cancelable (new_Event ty b False)" "\<not> defaultPrevented (new_Event ty b False)"
    by (simp_all add: new_Event_def)
next
  fix e :: event assume "\<not> cancelable e \<and> \<not> defaultPrevented e"
  then show "(preventDefault ^^ k) e = e" by (simp add: preventDefault_idle)
next
  fix e e' :: event and x w'
  assume e: "\<not> cancelable e \<and> \<not> defaultPrevented e"
     and d: "dispatchEvent fns t e w = Some (x, e', w')"
  from dispatchEvent_segment [OF d] have
    "evolves e e'" "case x of Inr r \<Rightarrow> r = (\<not> defaultPrevented e') | Inl err \<Rightarrow> True"
    by (auto simp: segment_def split: sum.splits)
  with e show "\<not> cancelable e'" "\<not> defaultPrevented e'" "x \<noteq> Inr False"
    by (auto simp: evolves_def)
next
  fix e :: event
  assume e: "\<not> cancelable e \<and> \<not> defaultPrevented e"
     and a: "ancestry (parentNode w) (Some t) ch \<and> (\<forall>n\<in>set ch. readable w n (etype e))"
  from a dispatchEvent_normal [of w t ch e fns] obtain e' w' where
    d: "dispatchEvent fns t e w = Some (Inr (\<not> defaultPrevented e'), e', w')"
    by blast
  from dispatchEvent_segment [OF d] have "evolves e e'" by (auto simp: segment_def)
  with e have "\<not> defaultPrevented e'" by (auto simp: evolves_def)
  with d show "\<exists>e' w'. dispatchEvent fns t e w = Some (Inr True, e', w')" by auto
next
  fix r e' w'
  assume "dispatchEvent fns t ev w = Some (Inr r, e', w')"
  from dispatchEvent_segment [OF this] show "r = (\<not> defaultPrevented e')" by simp
qed

lemma stop_at_root_iteration:
  "invokeListeners stopper 0 (new_Event ''click'' True False) True stop_at_root = (x1, e1, v1)
   \<Longrightarrow> \<not> immediatePropagationStopped e1 \<and> propagationStopped e1 \<and>
       regs stop_at_root 0 ''click'' =
         [\<lparr>listener = 10, capture = True, once = False\<rparr>,
          \<lparr>listener = 11, capture = True, once = False\<rparr>]"
  by (auto simp add: run_defs regs_def stop_at_root_def stopper_def)

theorem stopPropagation_scope_witness:
  "\<exists>r e' w' c d.
     dispatchEvent stopper 2 (new_Event ''click'' True False) stop_at_root = Some (r, e', w') \<and>
     calls w' = calls stop_at_root @ [] @ c # [d] \<and>
     propagationStopped (event_after c) \<and>
     view c = (0, \<lparr>listener = 10, capture = True, once = False\<rparr>, CAPTURING_PHASE) \<and>
     view d = (0, \<lparr>listener = 11, capture = True, once = False\<rparr>, CAPTURING_PHASE) \<and>
     receiver d = receiver c \<and> phase (event_after d) = phase (event_after c) \<and>
     propagationStopped e' \<and>
     propagationStopped
       (fst (snd (invokeListeners stopper 0 (new_Event ''click'' True False) True
                    stop_at_root))) \<and>
     map registration
       (drop (length (calls stop_at_root))
          (calls (snd (snd (invokeListeners stopper 0 (new_Event ''click'' True False) True
                              stop_at_root)))))
       = [\<lparr>listener = 10, capture = True, once = False\<rparr>,
          \<lparr>listener = 11, capture = True, once = False\<rparr>]"
proof -
  from stop_at_root_run obtain r e' w' c d where
    d: "dispatchEvent stopper 2 (new_Event ''click'' True False) stop_at_root
          = Some (r, e', w')" and
    tr: "calls w' = calls stop_at_root @ [] @ c # [d]" and
    st: "propagationStopped (event_after c)" and
    vw: "view c = (0, \<lparr>listener = 10, capture = True, once = False\<rparr>, CAPTURING_PHASE)"
        "view d = (0, \<lparr>listener = 11, capture = True, once = False\<rparr>, CAPTURING_PHASE)"
    by auto
  obtain x1 e1 v1 where
    i: "invokeListeners stopper 0 (new_Event ''click'' True False) True stop_at_root
          = (x1, e1, v1)"
    by (cases "invokeListeners stopper 0 (new_Event ''click'' True False) True stop_at_root")
  obtain x2 e2 v2 where
    j: "invokeListenersAtTarget stopper 0 (new_Event ''click'' True False) stop_at_root
          = (x2, e2, v2)"
    by (cases "invokeListenersAtTarget stopper 0 (new_Event ''click'' True False)
                 stop_at_root")
  have ty: "etype (new_Event ''click'' True False) = ''click''" by (simp add: new_Event_def)
  from stopPropagation_scope [OF d tr st i j] stop_at_root_iteration [OF i]
  have "receiver d = receiver c \<and> phase (event_after d) = phase (event_after c) \<and>
     propagationStopped e' \<and> propagationStopped e1 \<and>
     map registration (drop (length (calls stop_at_root)) (calls v1))
       = [\<lparr>listener = 10, capture = True, once = False\<rparr>,
          \<lparr>listener = 11, capture = True, once = False\<rparr>]"
    by (simp add: ty)
  with d tr st vw i show ?thesis
    by (intro exI [of _ r] exI [of _ e'] exI [of _ w'] exI [of _ c] exI [of _ d]) simp
qed

lemma stop_at_target_run:
  "\<exists>r e' w' c. dispatchEvent halter 2 (new_Event ''click'' True False) stop_at_target
       = Some (r, e', w') \<and> calls stop_at_target = [] \<and> calls w' = [c] \<and>
     immediatePropagationStopped (event_after c) \<and>
     view c = (2, \<lparr>listener = 20, capture = False, once = False\<rparr>, AT_TARGET)"
  by (auto simp add: run_defs stop_at_target_def halter_def)

theorem stopImmediatePropagation_ends_dispatch_witness:
  "\<exists>r e' w' c.
     dispatchEvent halter 2 (new_Event ''click'' True False) stop_at_target
       = Some (r, e', w') \<and>
     (immediatePropagationStopped (new_Event ''click'' True False) \<longrightarrow>
        propagationStopped (new_Event ''click'' True False)) \<and>
     calls w' = calls stop_at_target @ [] @ c # [] \<and>
     immediatePropagationStopped (event_after c) \<and>
     view c = (2, \<lparr>listener = 20, capture = False, once = False\<rparr>, AT_TARGET) \<and>
     propagationStopped e' \<and> immediatePropagationStopped e' \<and>
     map listener (regs stop_at_target 2 ''click'') = [20, 21] \<and>
     map listener (regs stop_at_target 1 ''click'') = [22] \<and>
     map listener (regs stop_at_target 0 ''click'') = [23]"
proof -
  from stop_at_target_run obtain r e' w' c where
    d: "dispatchEvent halter 2 (new_Event ''click'' True False) stop_at_target
          = Some (r, e', w')" and
    tr: "calls w' = calls stop_at_target @ [] @ c # []" and
    im: "immediatePropagationStopped (event_after c)" and
    vw: "view c = (2, \<lparr>listener = 20, capture = False, once = False\<rparr>, AT_TARGET)"
    by auto
  have ok: "immediatePropagationStopped (new_Event ''click'' True False) \<longrightarrow>
        propagationStopped (new_Event ''click'' True False)"
    by (simp add: new_Event_def)
  have rg: "map listener (regs stop_at_target 2 ''click'') = [20, 21] \<and>
     map listener (regs stop_at_target 1 ''click'') = [22] \<and>
     map listener (regs stop_at_target 0 ''click'') = [23]"
    by (simp add: run_defs regs_def stop_at_target_def)
  from stopImmediatePropagation_ends_dispatch [OF d ok tr im] d ok tr im vw rg
  show ?thesis
    by (intro exI [of _ r] exI [of _ e'] exI [of _ w'] exI [of _ c]) simp
qed

lemma one_listener_eval:
  "ancestry (parentNode one_listener) (Some 2) [2, 1, 0]"
  "readable one_listener 2 ''click''"
  "readable one_listener 1 ''click''"
  "readable one_listener 0 ''click''"
  by (simp_all add: run_defs one_listener_def readable_def)

lemma one_listener_cancelable:
  "\<exists>e' w'. dispatchEvent preventer 2 (new_Event ''click'' True True) one_listener
      = Some (Inr False, e', w')"
  by (auto simp add: run_defs one_listener_def preventer_def)

theorem preventDefault_not_cancelable_witness:
  "ancestry (parentNode one_listener) (Some 2) [2, 1, 0] \<and>
   readable one_listener 2 ''click'' \<and> readable one_listener 1 ''click'' \<and>
   readable one_listener 0 ''click'' \<and>
   (preventDefault ^^ 3) (new_Event ''click'' True False) = new_Event ''click'' True False \<and>
   (\<exists>e' w'. dispatchEvent preventer 2 (new_Event ''click'' True False) one_listener
       = Some (Inr True, e', w') \<and> \<not> defaultPrevented e') \<and>
   (\<exists>e' w'. dispatchEvent preventer 2 (new_Event ''click'' True True) one_listener
       = Some (Inr False, e', w') \<and> defaultPrevented e')"
proof -
  let ?e = "new_Event ''click'' True False"
  have st: "\<not> cancelable ?e \<and> \<not> defaultPrevented ?e" by (simp add: new_Event_def)
  have ty: "etype ?e = ''click''" by (simp add: new_Event_def)
  note t = preventDefault_not_cancelable
    [of "''click''" True 3 preventer 2 one_listener "[2, 1, 0]"
        "new_Event ''click'' True True"]
  from t st have idle: "(preventDefault ^^ 3) ?e = ?e" by blast
  from t st have
    safe: "\<forall>x e' w'. dispatchEvent preventer 2 ?e one_listener = Some (x, e', w') \<longrightarrow>
         \<not> cancelable e' \<and> \<not> defaultPrevented e' \<and> x \<noteq> Inr False"
    by blast
  from t st have
    "ancestry (parentNode one_listener) (Some 2) [2, 1, 0] \<and>
       (\<forall>n\<in>set [2, 1, 0]. readable one_listener n (etype ?e)) \<longrightarrow>
     (\<exists>e' w'. dispatchEvent preventer 2 ?e one_listener = Some (Inr True, e', w'))"
    by blast
  then obtain e' w' where
    d: "dispatchEvent preventer 2 ?e one_listener = Some (Inr True, e', w')"
    using one_listener_eval ty by auto
  with safe have n: "\<not> defaultPrevented e'" by blast
  from one_listener_cancelable obtain e2 w2 where
    c: "dispatchEvent preventer 2 (new_Event ''click'' True True) one_listener
          = Some (Inr False, e2, w2)"
    by blast
  with t have "False = (\<not> defaultPrevented e2)" by blast
  with c have
    "\<exists>e' w'. dispatchEvent preventer 2 (new_Event ''click'' True True) one_listener
       = Some (Inr False, e', w') \<and> defaultPrevented e'"
    by auto
  moreover from d n have
    "\<exists>e' w'. dispatchEvent preventer 2 ?e one_listener = Some (Inr True, e', w') \<and>
       \<not> defaultPrevented e'"
    by auto
  ultimately show ?thesis using one_listener_eval idle by simp
qed

text \<open>
  The claim as it was stated fails where a dispatch does not return: on a node that is
  its own ancestor the path loop never ends, and under an event type that names a
  property of \<^verbatim>\<open>Object.prototype\<close> the first registry read throws a \<^verbatim>\<open>TypeError\<close> to the
  caller.
\<close>

theorem preventDefault_not_cancelable_counterexample:
  "\<not> cancelable (new_Event ''click'' True False) \<and>
   dispatchEvent preventer 0 (new_Event ''click'' True False) knot = None \<and>
   \<not> cancelable (new_Event ''toString'' True False) \<and>
   map_option fst (dispatchEvent preventer 2 (new_Event ''toString'' True False) one_listener)
     = Some (Inl (TypeError ''listeners is not iterable''))"
proof -
  have "map_option fst
      (dispatchEvent preventer 2 (new_Event ''toString'' True False) one_listener)
     = Some (Inl (TypeError ''listeners is not iterable''))"
    by (simp add: run_defs one_listener_def)
  then show ?thesis by (simp add: knot_endless new_Event_def)
qed

subsection \<open>Listeners that neither stop the event nor touch the registry\<close>

lemma regs_removeEventListener:
  "regs (snd (removeEventListener n ty l c w)) m ty' =
     (if m = n \<and> ty' = ty
      then filter (\<lambda>x. \<not> (listener x = l \<and> capture x = c)) (regs w m ty')
      else regs w m ty')"
  by (auto simp: regs_def removeEventListener_def registry_get_def
      split: option.splits if_splits)

lemma tree_call_plain:
  assumes "tree_call (r, w1) e = (x, e', w')" and "listeners w1 = listeners w"
  shows "listeners w' = listeners w \<and> e' = e"
  using assms by (auto simp: tree_call_def split: sum.splits)

lemma exec_stmt_plain:
  assumes "plain_stmt s" and "exec_stmt s e w = (x, e', w')"
  shows "listeners w' = listeners w \<and>
         propagationStopped e' = propagationStopped e \<and>
         immediatePropagationStopped e' = immediatePropagationStopped e"
proof (cases s)
  case (AppendChild p c)
  with assms(2) show ?thesis
    by (cases "appendChild p c w")
       (auto dest!: tree_call_plain appendChild_frame)
next
  case (InsertBefore p c r)
  with assms(2) show ?thesis
    by (cases "insertBefore p c r w")
       (auto dest!: tree_call_plain insertBefore_frame)
next
  case (RemoveChild p c)
  with assms(2) show ?thesis
    by (cases "removeChild p c w")
       (auto dest!: tree_call_plain removeChild_frame)
next
  case (ReplaceChild p c d)
  with assms(2) show ?thesis
    by (cases "replaceChild p c d w")
       (auto dest!: tree_call_plain replaceChild_frame)
qed (use assms in \<open>auto simp: preventDefault_def split: if_splits\<close>)

lemma exec_body_plain:
  "list_all plain_stmt ss \<Longrightarrow> exec_body ss e w = (x, e', w') \<Longrightarrow>
     listeners w' = listeners w \<and>
     propagationStopped e' = propagationStopped e \<and>
     immediatePropagationStopped e' = immediatePropagationStopped e"
proof (induction ss arbitrary: e w)
  case Nil
  then show ?case by simp
next
  case (Cons s ss)
  obtain y e1 w1 where s: "exec_stmt s e w = (y, e1, w1)"
    by (cases "exec_stmt s e w") auto
  from Cons.prems(1) have ps: "plain_stmt s" and pss: "list_all plain_stmt ss"
    by simp_all
  note l = exec_stmt_plain [OF ps s]
  show ?case
  proof (cases y)
    case None
    with Cons.prems(2) s have "exec_body ss e1 w1 = (x, e', w')" by simp
    from Cons.IH [OF pss this] l show ?thesis by simp
  next
    case (Some err)
    with Cons.prems(2) s have "e' = e1" "w' = w1" by simp_all
    with l show ?thesis by simp
  qed
qed

lemma executeListner_plain:
  assumes p: "plain fns" and x: "executeListner fns this en e w = (r, e', w')"
  shows "propagationStopped e' = propagationStopped e \<and>
         immediatePropagationStopped e' = immediatePropagationStopped e \<and>
         (\<forall>m ty. regs w' m ty =
            (if once en \<and> m = this \<and> ty = etype e
             then filter (\<lambda>x. \<not> (listener x = listener en \<and> capture x = capture en))
                    (regs w m ty)
             else regs w m ty))"
proof (cases r)
  case (Some err)
  with executeListner_throws [of fns this en e w err e' w'] x have
    "e' = e" "w' = w" "regs w this (etype e) = []"
    by (simp_all add: regs_unreadable)
  then show ?thesis by auto
next
  case None
  obtain y w1 where rm: "(if once en
      then removeEventListener this (etype e) (listener en) (capture en) w
      else (None, w)) = (y, w1)"
    by (cases "(if once en
      then removeEventListener this (etype e) (listener en) (capture en) w
      else (None, w))") auto
  from x rm None have y: "y = None"
    by (cases y) (auto simp: executeListner_def)
  obtain z e2 w2 where b: "exec_body (fns (listener en) this e w1) e w1 = (z, e2, w2)"
    by (cases "exec_body (fns (listener en) this e w1) e w1") auto
  from p have "list_all plain_stmt (fns (listener en) this e w1)"
    by (simp add: plain_def)
  note l = exec_body_plain [OF this b]
  from x b rm y have *: "e' = e2 \<and> listeners w' = listeners w2"
    unfolding executeListner_def Let_def
    by (cases z) auto
  have "\<forall>m ty. regs w' m ty = regs w1 m ty"
    using * l by (simp add: regs_def)
  moreover have "w1 = (if once en
      then snd (removeEventListener this (etype e) (listener en) (capture en) w) else w)"
    using rm by (auto split: if_splits)
  then have "\<forall>m ty. regs w1 m ty =
            (if once en \<and> m = this \<and> ty = etype e
             then filter (\<lambda>x. \<not> (listener x = listener en \<and> capture x = capture en))
                    (regs w m ty)
             else regs w m ty)"
    by (simp add: regs_removeEventListener)
  ultimately show ?thesis using * l by simp
qed

lemma struck_Cons:
  "struck (en # rest) x \<longleftrightarrow>
     (once en \<and> listener x = listener en \<and> capture x = capture en) \<or> struck rest x"
  by (auto simp: struck_def)

lemma struck_Nil: "\<not> struck [] x"
  by (simp add: struck_def)

lemma target_loop_plain:
  "plain fns \<Longrightarrow> fresh e \<Longrightarrow> readable w this (etype e) \<Longrightarrow>
   target_loop fns this snap e w = (r, e', w') \<Longrightarrow>
     fresh e' \<and>
     (\<forall>m ty. regs w' m ty =
        (if m = this \<and> ty = etype e
         then filter (\<lambda>x. \<not> struck snap x) (regs w m ty)
         else regs w m ty))"
proof (induction snap arbitrary: e w)
  case Nil
  then show ?case by (simp add: struck_Nil)
next
  case (Cons en rest)
  obtain y e1 w1 where x: "executeListner fns this en e w = (y, e1, w1)"
    by (cases "executeListner fns this en e w") auto
  have y: "y = None"
  proof (cases y)
    case (Some err)
    with x executeListner_throws [of fns this en e w err e1 w1] Cons.prems(3)
    show ?thesis by simp
  qed simp
  note l = executeListner_plain [OF Cons.prems(1) x]
  from executeListner_summary [OF x [unfolded y]] have
    ty: "etype e1 = etype e" and kp: "kept w w1"
    by (simp_all add: evolves_def)
  from kept_readable [OF kp Cons.prems(3)] have rd: "readable w1 this (etype e1)"
    by (simp add: ty)
  from l Cons.prems(2) have f1: "fresh e1" by (simp add: fresh_def)
  then have "\<not> immediatePropagationStopped e1" by (simp add: fresh_def)
  with Cons.prems(4) x y have "target_loop fns this rest e1 w1 = (r, e', w')" by simp
  from Cons.IH [OF Cons.prems(1) f1 rd this] have
    f: "fresh e'" and
    r: "\<forall>m ty. regs w' m ty =
        (if m = this \<and> ty = etype e
         then filter (\<lambda>x. \<not> struck rest x) (regs w1 m ty)
         else regs w1 m ty)"
    by (simp_all add: ty)
  have "\<forall>m ty. regs w' m ty =
        (if m = this \<and> ty = etype e
         then filter (\<lambda>x. \<not> struck (en # rest) x) (regs w m ty)
         else regs w m ty)"
  proof (intro allI)
    fix m ty
    show "regs w' m ty =
        (if m = this \<and> ty = etype e
         then filter (\<lambda>x. \<not> struck (en # rest) x) (regs w m ty)
         else regs w m ty)"
    proof (cases "m = this \<and> ty = etype e")
      case True
      then have "regs w' m ty = filter (\<lambda>x. \<not> struck rest x) (regs w1 m ty)"
        using r by simp
      also have "regs w1 m ty =
          (if once en
           then filter (\<lambda>x. \<not> (listener x = listener en \<and> capture x = capture en))
                  (regs w m ty)
           else regs w m ty)"
        using l True by simp
      also have "filter (\<lambda>x. \<not> struck rest x) \<dots> =
          filter (\<lambda>x. \<not> struck (en # rest) x) (regs w m ty)"
        by (auto simp: struck_Cons intro: filter_cong)
      finally show ?thesis using True by simp
    next
      case False
      then show ?thesis using r l by auto
    qed
  qed
  with f show ?case by simp
qed

subsection \<open>The ancestor chain has no repetition\<close>

lemma ancestry_unique: "ancestry pn cur ch \<Longrightarrow> ancestry pn cur ch' \<Longrightarrow> ch = ch'"
proof (induction ch arbitrary: cur ch')
  case Nil
  then show ?case by (cases cur; cases ch') auto
next
  case (Cons x xs)
  then show ?case by (cases cur; cases ch') auto
qed

lemma ancestry_suffix:
  "ancestry pn cur ch \<Longrightarrow> x \<in> set ch \<Longrightarrow>
     \<exists>pre suf. ch = pre @ x # suf \<and> ancestry pn (Some x) (x # suf)"
proof (induction ch arbitrary: cur)
  case Nil
  then show ?case by simp
next
  case (Cons y ys)
  from Cons.prems(1) obtain c where c: "cur = Some c" "y = c" "ancestry pn (pn c) ys"
    by (cases cur) auto
  show ?case
  proof (cases "x = y")
    case True
    with c have "y # ys = [] @ x # ys \<and> ancestry pn (Some x) (x # ys)" by simp
    then show ?thesis by blast
  next
    case False
    with Cons.prems(2) have "x \<in> set ys" by simp
    from Cons.IH [OF c(3) this] obtain pre suf where
      "ys = pre @ x # suf" "ancestry pn (Some x) (x # suf)"
      by blast
    then have "y # ys = (y # pre) @ x # suf \<and> ancestry pn (Some x) (x # suf)" by simp
    then show ?thesis by blast
  qed
qed

lemma ancestry_distinct: "ancestry pn cur ch \<Longrightarrow> distinct ch"
proof (induction ch arbitrary: cur)
  case Nil
  then show ?case by simp
next
  case (Cons y ys)
  from Cons.prems obtain c where c: "cur = Some c" "y = c" "ancestry pn (pn c) ys"
    by (cases cur) auto
  have "y \<notin> set ys"
  proof
    assume "y \<in> set ys"
    from ancestry_suffix [OF c(3) this] obtain pre suf where
      s: "ys = pre @ y # suf" "ancestry pn (Some y) (y # suf)"
      by blast
    from Cons.prems c have "ancestry pn (Some y) (y # ys)" by simp
    from ancestry_unique [OF this s(2)] have "ys = suf" by simp
    with s(1) show False by simp
  qed
  with Cons.IH [OF c(3)] show ?case by simp
qed

subsection \<open>The schedule of a dispatch to plain listeners\<close>

lemma view_map:
  "\<forall>c\<in>set cs. receiver c = n \<and> phase (event_after c) = p \<Longrightarrow>
     map view cs = map (\<lambda>en. (n, en, p)) (map registration cs)"
  by (induction cs) (simp_all add: view_def)

lemma struck_capture:
  "struck (filter (\<lambda>y. capture y = c) S) x \<Longrightarrow> capture x = c"
  by (auto simp: struck_def)

lemma filter_struck_other:
  "b \<noteq> c \<Longrightarrow>
   filter (\<lambda>x. capture x = b) (filter (\<lambda>x. \<not> struck (filter (\<lambda>y. capture y = c) S) x) xs)
     = filter (\<lambda>x. capture x = b) xs"
  by (induction xs) (auto dest: struck_capture)

lemma iteration_plain:
  assumes p: "plain fns" and f: "fresh e" and rd: "readable w n (etype e)" and
    t: "target_loop fns n snap e w = (r, e', w')"
  shows "r = None \<and> kept w w' \<and>
         fresh e' \<and> etype e' = etype e \<and> bubbles e' = bubbles e \<and> phase e' = phase e \<and>
         (\<exists>cs. calls w' = calls w @ cs \<and> console w' = console w @ reports cs \<and>
               map view cs = map (\<lambda>en. (n, en, phase e)) snap) \<and>
         (\<forall>m ty. regs w' m ty =
            (if m = n \<and> ty = etype e
             then filter (\<lambda>x. \<not> struck snap x) (regs w m ty)
             else regs w m ty))"
proof -
  from target_loop_plain [OF p f rd t] have
    f': "fresh e'" and
    r: "\<forall>m ty. regs w' m ty =
            (if m = n \<and> ty = etype e
             then filter (\<lambda>x. \<not> struck snap x) (regs w m ty)
             else regs w m ty)"
    by simp_all
  from target_loop_iteration [OF rd t] obtain cs where
    n: "r = None" "kept w w'" and
    c: "calls w' = calls w @ cs" "console w' = console w @ reports cs" and
    it: "iteration n snap e cs e'"
    by blast
  from it f' have m: "map registration cs = snap" by (simp add: iteration_def fresh_def)
  from it have "\<forall>c\<in>set cs. receiver c = n \<and> phase (event_after c) = phase e"
    by (simp add: iteration_def)
  then have "map view cs = map (\<lambda>en. (n, en, phase e)) (map registration cs)"
    by (rule view_map)
  then have "map view cs = map (\<lambda>en. (n, en, phase e)) snap"
    by (simp only: m)
  with c have "\<exists>cs. calls w' = calls w @ cs \<and> console w' = console w @ reports cs \<and>
               map view cs = map (\<lambda>en. (n, en, phase e)) snap"
    by blast
  moreover from it have "etype e' = etype e \<and> bubbles e' = bubbles e \<and> phase e' = phase e"
    by (simp add: iteration_def evolves_def)
  ultimately show ?thesis using f' r n by simp
qed

text \<open>
  One node of the path: either per-node function invokes the whole snapshot, which is
  empty on a node that is not readable, where the function throws.
\<close>

lemma node_plain:
  assumes p: "plain fns" and f: "fresh e"
      and rd: "readable w n (etype e) \<longrightarrow> target_loop fns n snap e w = (r, e', w')"
      and ur: "\<not> readable w n (etype e) \<longrightarrow>
                 snap = [] \<and> (r, e', w') = (Some (TypeError ''listeners is not iterable''), e, w)"
  shows "(\<exists>cs. calls w' = calls w @ cs \<and> console w' = console w @ reports cs \<and>
               map view cs = map (\<lambda>en. (n, en, phase e)) snap) \<and>
         (r = None \<longleftrightarrow> readable w n (etype e)) \<and>
         (r = None \<longrightarrow>
            kept w w' \<and> fresh e' \<and> etype e' = etype e \<and> bubbles e' = bubbles e \<and>
            phase e' = phase e \<and>
            (\<forall>m ty. regs w' m ty =
               (if m = n \<and> ty = etype e
                then filter (\<lambda>x. \<not> struck snap x) (regs w m ty)
                else regs w m ty)))"
proof (cases "readable w n (etype e)")
  case True
  with rd have "target_loop fns n snap e w = (r, e', w')" by simp
  from iteration_plain [OF p f True this] True show ?thesis by simp
next
  case False
  with ur have "snap = []" "r = Some (TypeError ''listeners is not iterable'')" "w' = w"
    by simp_all
  moreover have "calls w = calls w @ [] \<and> console w = console w @ reports [] \<and>
      map view [] = map (\<lambda>en. (n, en, phase e)) []"
    by simp
  ultimately show ?thesis using False by blast
qed

lemma invokeListeners_plain:
  assumes "plain fns" and "fresh e" and "invokeListeners fns n e fc w = (r, e', w')"
  shows "(\<exists>cs. calls w' = calls w @ cs \<and> console w' = console w @ reports cs \<and>
               map view cs = map (\<lambda>en. (n, en, phase e))
                               (filter (\<lambda>en. capture en = fc) (regs w n (etype e)))) \<and>
         (r = None \<longleftrightarrow> readable w n (etype e)) \<and>
         (r = None \<longrightarrow>
            kept w w' \<and> fresh e' \<and> etype e' = etype e \<and> bubbles e' = bubbles e \<and>
            phase e' = phase e \<and>
            (\<forall>m ty. regs w' m ty =
               (if m = n \<and> ty = etype e
                then filter (\<lambda>x. \<not> struck (filter (\<lambda>en. capture en = fc)
                                                 (regs w n (etype e))) x) (regs w m ty)
                else regs w m ty)))"
  using assms
  by (intro node_plain)
     (auto simp: invokeListeners_regs invokeListeners_unreadable regs_unreadable)

lemma invokeListenersAtTarget_plain:
  assumes "plain fns" and "fresh e" and "invokeListenersAtTarget fns n e w = (r, e', w')"
  shows "(\<exists>cs. calls w' = calls w @ cs \<and> console w' = console w @ reports cs \<and>
               map view cs = map (\<lambda>en. (n, en, phase e)) (regs w n (etype e))) \<and>
         (r = None \<longleftrightarrow> readable w n (etype e)) \<and>
         (r = None \<longrightarrow>
            kept w w' \<and> fresh e' \<and> etype e' = etype e \<and> bubbles e' = bubbles e \<and>
            phase e' = phase e \<and>
            (\<forall>m ty. regs w' m ty =
               (if m = n \<and> ty = etype e
                then filter (\<lambda>x. \<not> struck (regs w n (etype e)) x) (regs w m ty)
                else regs w m ty)))"
  using assms
  by (intro node_plain)
     (auto simp: invokeListenersAtTarget_regs invokeListenersAtTarget_unreadable
        regs_unreadable)

text \<open>
  A path loop: the calls are an initial part of the loop's share of the schedule, and all
  of it when the loop does not throw, which is when every node is readable.
\<close>

lemma propagate_plain:
  "plain fns \<Longrightarrow> fresh e \<Longrightarrow> distinct ns \<Longrightarrow> propagate fns fc ns e w = (r, e', w') \<Longrightarrow>
     (\<exists>cs. calls w' = calls w @ cs \<and> console w' = console w @ reports cs \<and>
           prefix (map view cs)
             (concat (map (\<lambda>n. map (\<lambda>en. (n, en, phase e))
                           (filter (\<lambda>en. capture en = fc) (regs w n (etype e)))) ns)) \<and>
           (r = None \<longrightarrow> map view cs =
             concat (map (\<lambda>n. map (\<lambda>en. (n, en, phase e))
                           (filter (\<lambda>en. capture en = fc) (regs w n (etype e)))) ns))) \<and>
     (r = None \<longrightarrow>
        kept w w' \<and> fresh e' \<and> etype e' = etype e \<and> bubbles e' = bubbles e \<and>
        phase e' = phase e \<and>
        (\<forall>m ty. regs w' m ty =
           (if m \<in> set ns \<and> ty = etype e
            then filter (\<lambda>x. \<not> struck (filter (\<lambda>en. capture en = fc) (regs w m ty)) x)
                   (regs w m ty)
            else regs w m ty)))"
proof (induction ns arbitrary: e w)
  case Nil
  then show ?case by (simp add: kept_refl)
next
  case (Cons n ns)
  let ?e0 = "e\<lparr>currentTarget := Some n\<rparr>"
  let ?snap = "filter (\<lambda>en. capture en = fc) (regs w n (etype e))"
  let ?rest = "concat (map (\<lambda>n. map (\<lambda>en. (n, en, phase e))
                           (filter (\<lambda>en. capture en = fc) (regs w n (etype e)))) ns)"
  from Cons.prems(2) have ns: "\<not> propagationStopped e" and f0: "fresh ?e0"
    by (simp_all add: fresh_def)
  obtain y e1 w1 where i: "invokeListeners fns n ?e0 fc w = (y, e1, w1)"
    by (cases "invokeListeners fns n ?e0 fc w") auto
  from invokeListeners_plain [OF Cons.prems(1) f0 i] obtain cs1 where
    c1: "calls w1 = calls w @ cs1" "console w1 = console w @ reports cs1" and
    v1: "map view cs1 = map (\<lambda>en. (n, en, phase e)) ?snap" and
    yr: "y = None \<longleftrightarrow> readable w n (etype e)" and
    n1: "y = None \<longrightarrow>
            kept w w1 \<and> fresh e1 \<and> etype e1 = etype e \<and> bubbles e1 = bubbles e \<and>
            phase e1 = phase e \<and>
            (\<forall>m ty. regs w1 m ty =
               (if m = n \<and> ty = etype e
                then filter (\<lambda>x. \<not> struck ?snap x) (regs w m ty)
                else regs w m ty))"
    by auto
  show ?case
  proof (cases y)
    case (Some err)
    with i Cons.prems(4) ns have res: "r = Some err" "e' = e1" "w' = w1" by simp_all
    have "prefix (map view cs1) (map (\<lambda>en. (n, en, phase e)) ?snap @ ?rest)"
      unfolding v1 by simp
    with c1 res have
      "\<exists>cs. calls w' = calls w @ cs \<and> console w' = console w @ reports cs \<and>
           prefix (map view cs)
             (concat (map (\<lambda>n. map (\<lambda>en. (n, en, phase e))
                           (filter (\<lambda>en. capture en = fc) (regs w n (etype e)))) (n # ns))) \<and>
           (r = None \<longrightarrow> map view cs =
             concat (map (\<lambda>n. map (\<lambda>en. (n, en, phase e))
                           (filter (\<lambda>en. capture en = fc) (regs w n (etype e)))) (n # ns)))"
      by auto
    with res Some show ?thesis by simp
  next
    case None
    with n1 have
      kp1: "kept w w1" and f1: "fresh e1" and
      k1: "etype e1 = etype e" "bubbles e1 = bubbles e" "phase e1 = phase e" and
      r1: "\<forall>m ty. regs w1 m ty =
               (if m = n \<and> ty = etype e
                then filter (\<lambda>x. \<not> struck ?snap x) (regs w m ty)
                else regs w m ty)"
      by simp_all
    from i None Cons.prems(4) ns have p: "propagate fns fc ns e1 w1 = (r, e', w')"
      by simp
    from Cons.prems(3) have d: "distinct ns" "n \<notin> set ns" by simp_all
    from Cons.IH [OF Cons.prems(1) f1 d(1) p] obtain cs2 where
      c2: "calls w' = calls w1 @ cs2" "console w' = console w1 @ reports cs2" and
      v2: "prefix (map view cs2)
             (concat (map (\<lambda>n. map (\<lambda>en. (n, en, phase e1))
                           (filter (\<lambda>en. capture en = fc) (regs w1 n (etype e1)))) ns))" and
      v2n: "r = None \<longrightarrow> map view cs2 =
             concat (map (\<lambda>n. map (\<lambda>en. (n, en, phase e1))
                           (filter (\<lambda>en. capture en = fc) (regs w1 n (etype e1)))) ns)" and
      n2: "r = None \<longrightarrow>
        kept w1 w' \<and> fresh e' \<and> etype e' = etype e1 \<and> bubbles e' = bubbles e1 \<and>
        phase e' = phase e1 \<and>
        (\<forall>m ty. regs w' m ty =
           (if m \<in> set ns \<and> ty = etype e1
            then filter (\<lambda>x. \<not> struck (filter (\<lambda>en. capture en = fc) (regs w1 m ty)) x)
                   (regs w1 m ty)
            else regs w1 m ty))"
      by auto
    have same: "\<forall>m\<in>set ns. \<forall>ty. regs w1 m ty = regs w m ty"
      using r1 d(2) by auto
    have eq: "concat (map (\<lambda>n. map (\<lambda>en. (n, en, phase e1))
                           (filter (\<lambda>en. capture en = fc) (regs w1 n (etype e1)))) ns)
              = ?rest"
      unfolding k1 using same by (auto intro!: arg_cong [of _ _ concat] map_cong)
    have v: "prefix (map view (cs1 @ cs2))
               (concat (map (\<lambda>n. map (\<lambda>en. (n, en, phase e))
                           (filter (\<lambda>en. capture en = fc) (regs w n (etype e)))) (n # ns)))"
      using v1 v2 eq by simp
    have vn: "r = None \<longrightarrow> map view (cs1 @ cs2) =
               concat (map (\<lambda>n. map (\<lambda>en. (n, en, phase e))
                           (filter (\<lambda>en. capture en = fc) (regs w n (etype e)))) (n # ns))"
      using v1 v2n eq by simp
    have "calls w' = calls w @ cs1 @ cs2 \<and> console w' = console w @ reports (cs1 @ cs2)"
      using c1 c2 by (simp add: reports_append)
    with v vn have
      "\<exists>cs. calls w' = calls w @ cs \<and> console w' = console w @ reports cs \<and>
           prefix (map view cs)
             (concat (map (\<lambda>n. map (\<lambda>en. (n, en, phase e))
                           (filter (\<lambda>en. capture en = fc) (regs w n (etype e)))) (n # ns))) \<and>
           (r = None \<longrightarrow> map view cs =
             concat (map (\<lambda>n. map (\<lambda>en. (n, en, phase e))
                           (filter (\<lambda>en. capture en = fc) (regs w n (etype e)))) (n # ns)))"
      by blast
    moreover have "r = None \<longrightarrow>
        kept w w' \<and> fresh e' \<and> etype e' = etype e \<and> bubbles e' = bubbles e \<and>
        phase e' = phase e \<and>
        (\<forall>m ty. regs w' m ty =
           (if m \<in> set (n # ns) \<and> ty = etype e
            then filter (\<lambda>x. \<not> struck (filter (\<lambda>en. capture en = fc) (regs w m ty)) x)
                   (regs w m ty)
            else regs w m ty))"
    proof
      assume "r = None"
      with n2 have
        kp2: "kept w1 w'" and f2: "fresh e'" and
        k2: "etype e' = etype e1" "bubbles e' = bubbles e1" "phase e' = phase e1" and
        r2: "\<forall>m ty. regs w' m ty =
           (if m \<in> set ns \<and> ty = etype e1
            then filter (\<lambda>x. \<not> struck (filter (\<lambda>en. capture en = fc) (regs w1 m ty)) x)
                   (regs w1 m ty)
            else regs w1 m ty)"
        by simp_all
      have "\<forall>m ty. regs w' m ty =
           (if m \<in> set (n # ns) \<and> ty = etype e
            then filter (\<lambda>x. \<not> struck (filter (\<lambda>en. capture en = fc) (regs w m ty)) x)
                   (regs w m ty)
            else regs w m ty)"
        using r1 r2 k1 d(2) same by auto
      with f2 k1 k2 kept_trans [OF kp1 kp2]
      show "kept w w' \<and> fresh e' \<and> etype e' = etype e \<and> bubbles e' = bubbles e \<and>
        phase e' = phase e \<and>
        (\<forall>m ty. regs w' m ty =
           (if m \<in> set (n # ns) \<and> ty = etype e
            then filter (\<lambda>x. \<not> struck (filter (\<lambda>en. capture en = fc) (regs w m ty)) x)
                   (regs w m ty)
            else regs w m ty))"
        by simp
    qed
    ultimately show ?thesis by blast
  qed
qed

lemma schedule_snoc:
  "schedule w (anc @ [t]) e =
     concat (map (\<lambda>n. map (\<lambda>en. (n, en, CAPTURING_PHASE))
                         (filter (\<lambda>en. capture en = True) (regs w n (etype e)))) anc)
     @ map (\<lambda>en. (t, en, AT_TARGET)) (regs w t (etype e))
     @ (if bubbles e
        then concat (map (\<lambda>n. map (\<lambda>en. (n, en, BUBBLING_PHASE))
                              (filter (\<lambda>en. capture en = False) (regs w n (etype e))))
                      (rev anc))
        else [])"
  by (simp add: schedule_def)

lemma dispatch_phases_plain:
  assumes p: "plain fns" and f: "fresh e0" and d: "distinct (anc @ [t])"
      and r: "dispatch_phases fns t (anc @ [t]) e0 w = (x, e', w')"
  shows "(\<exists>cs. calls w' = calls w @ cs \<and> console w' = console w @ reports cs \<and>
               prefix (map view cs) (schedule w (anc @ [t]) e0) \<and>
               ((\<exists>b. x = Inr b) \<longrightarrow> map view cs = schedule w (anc @ [t]) e0)) \<and>
         ((\<exists>b. x = Inr b) \<longrightarrow>
            fresh e' \<and>
            (\<forall>ty. regs w' t ty =
               (if ty = etype e0
                then filter (\<lambda>x. \<not> struck (regs w t ty) x) (regs w t ty)
                else regs w t ty)))"
proof -
  let ?ty = "etype e0"
  let ?e1 = "e0\<lparr>phase := CAPTURING_PHASE\<rparr>"
  let ?S1 = "concat (map (\<lambda>n. map (\<lambda>en. (n, en, CAPTURING_PHASE))
                         (filter (\<lambda>en. capture en = True) (regs w n ?ty))) anc)"
  let ?S2 = "map (\<lambda>en. (t, en, AT_TARGET)) (regs w t ?ty)"
  let ?S3 = "if bubbles e0
             then concat (map (\<lambda>n. map (\<lambda>en. (n, en, BUBBLING_PHASE))
                                  (filter (\<lambda>en. capture en = False) (regs w n ?ty)))
                            (rev anc))
             else []"
  have sch: "schedule w (anc @ [t]) e0 = ?S1 @ ?S2 @ ?S3"
    by (simp add: schedule_snoc)
  from d have da: "distinct anc" and ta: "t \<notin> set anc" by simp_all
  have f1: "fresh ?e1" using f by (simp add: fresh_def)
  obtain y1 e2 w2 where p1: "propagate fns True anc ?e1 w = (y1, e2, w2)"
    by (cases "propagate fns True anc ?e1 w") auto
  from propagate_plain [OF p f1 da p1] obtain cs1 where
    c1: "calls w2 = calls w @ cs1" "console w2 = console w @ reports cs1" and
    v1: "prefix (map view cs1) ?S1" and
    n1: "y1 = None \<longrightarrow> map view cs1 = ?S1 \<and> fresh e2 \<and> etype e2 = ?ty \<and>
           bubbles e2 = bubbles e0 \<and>
           (\<forall>m ty. regs w2 m ty =
              (if m \<in> set anc \<and> ty = ?ty
               then filter (\<lambda>x. \<not> struck (filter (\<lambda>en. capture en = True) (regs w m ty)) x)
                      (regs w m ty)
               else regs w m ty))"
    by auto
  show ?thesis
  proof (cases y1)
    case (Some err)
    with r p1 have res: "x = Inl err" "e' = e2" "w' = w2"
      by (simp_all add: dispatch_phases_def)
    from v1 have "prefix (map view cs1) (schedule w (anc @ [t]) e0)"
      unfolding sch by (rule prefix_prefix)
    with c1 res show ?thesis by auto
  next
    case y1: None
    with n1 have
      f2: "fresh e2" and k2: "etype e2 = ?ty" "bubbles e2 = bubbles e0" and
      e1: "map view cs1 = ?S1" and
      r2: "\<forall>m ty. regs w2 m ty =
              (if m \<in> set anc \<and> ty = ?ty
               then filter (\<lambda>x. \<not> struck (filter (\<lambda>en. capture en = True) (regs w m ty)) x)
                      (regs w m ty)
               else regs w m ty)"
      by simp_all
    let ?e2 = "e2\<lparr>phase := AT_TARGET, currentTarget := Some t\<rparr>"
    have f2': "fresh ?e2" and ns2: "\<not> propagationStopped e2"
      using f2 by (simp_all add: fresh_def)
    have rt: "regs w2 t ?ty = regs w t ?ty" using r2 ta by simp
    obtain y2 e3 w3 where p2: "invokeListenersAtTarget fns t ?e2 w2 = (y2, e3, w3)"
      by (cases "invokeListenersAtTarget fns t ?e2 w2") auto
    from invokeListenersAtTarget_plain [OF p f2' p2] obtain cs2 where
      c2: "calls w3 = calls w2 @ cs2" "console w3 = console w2 @ reports cs2" and
      v2: "map view cs2 = ?S2" and
      n2: "y2 = None \<longrightarrow> fresh e3 \<and> etype e3 = ?ty \<and> bubbles e3 = bubbles e0 \<and>
            (\<forall>m ty. regs w3 m ty =
               (if m = t \<and> ty = ?ty
                then filter (\<lambda>x. \<not> struck (regs w t ?ty) x) (regs w2 m ty)
                else regs w2 m ty))"
      using k2 rt by auto
    have c12: "calls w3 = calls w @ cs1 @ cs2" "console w3 = console w @ reports (cs1 @ cs2)"
      using c1 c2 by (simp_all add: reports_append)
    show ?thesis
    proof (cases y2)
      case (Some err)
      with r p1 p2 y1 ns2 have res: "x = Inl err" "e' = e3" "w' = w3"
        by (simp_all add: dispatch_phases_def)
      have "prefix (map view (cs1 @ cs2)) (schedule w (anc @ [t]) e0)"
        unfolding sch using e1 v2 by simp
      with c12 res show ?thesis by auto
    next
      case y2: None
      with n2 have
        f3: "fresh e3" and k3: "etype e3 = ?ty" "bubbles e3 = bubbles e0" and
        r3: "\<forall>m ty. regs w3 m ty =
               (if m = t \<and> ty = ?ty
                then filter (\<lambda>x. \<not> struck (regs w t ?ty) x) (regs w2 m ty)
                else regs w2 m ty)"
        by simp_all
      have ns3: "\<not> propagationStopped e3" using f3 by (simp add: fresh_def)
      let ?e3 = "e3\<lparr>phase := BUBBLING_PHASE\<rparr>"
      have f3': "fresh ?e3" using f3 by (simp add: fresh_def)
      obtain y3 e4 w4 where
        p3: "(if bubbles e0 then propagate fns False (rev anc) ?e3 w3 else (None, e3, w3))
               = (y3, e4, w4)"
        by (cases "(if bubbles e0 then propagate fns False (rev anc) ?e3 w3
                    else (None, e3, w3))")
           auto
      have bub: "\<forall>n\<in>set anc. filter (\<lambda>en. capture en = False) (regs w3 n ?ty)
                    = filter (\<lambda>en. capture en = False) (regs w n ?ty)"
      proof
        fix n assume n: "n \<in> set anc"
        with ta have "n \<noteq> t" by auto
        with r3 r2 n have "regs w3 n ?ty =
            filter (\<lambda>x. \<not> struck (filter (\<lambda>en. capture en = True) (regs w n ?ty)) x)
              (regs w n ?ty)"
          by simp
        then show "filter (\<lambda>en. capture en = False) (regs w3 n ?ty)
                    = filter (\<lambda>en. capture en = False) (regs w n ?ty)"
          using filter_struck_other [of False True "regs w n ?ty" "regs w n ?ty"]
          by (simp only: simp_thms)
      qed
      have t3: "\<forall>ty. regs w3 t ty =
                (if ty = ?ty then filter (\<lambda>x. \<not> struck (regs w t ty) x) (regs w t ty)
                 else regs w t ty)"
        using r3 r2 ta by simp
      have "\<exists>cs3. calls w4 = calls w3 @ cs3 \<and> console w4 = console w3 @ reports cs3 \<and>
               prefix (map view cs3) ?S3 \<and>
               (y3 = None \<longrightarrow> map view cs3 = ?S3 \<and> fresh e4 \<and>
                  (\<forall>ty. regs w4 t ty = regs w3 t ty))"
      proof (cases "bubbles e0")
        case True
        with p3 have q: "propagate fns False (rev anc) ?e3 w3 = (y3, e4, w4)" by simp
        from da have dr: "distinct (rev anc)" by simp
        have eq: "concat (map (\<lambda>n. map (\<lambda>en. (n, en, phase ?e3))
                         (filter (\<lambda>en. capture en = False) (regs w3 n (etype ?e3))))
                     (rev anc)) = ?S3"
          using bub True k3
          by (auto intro!: arg_cong [of _ _ concat] map_cong)
        from propagate_plain [OF p f3' dr q] obtain cs3 where
          c3: "calls w4 = calls w3 @ cs3" "console w4 = console w3 @ reports cs3" and
          v3: "prefix (map view cs3) ?S3" and
          n3: "y3 = None \<longrightarrow> map view cs3 = ?S3 \<and> fresh e4 \<and>
            (\<forall>m ty. regs w4 m ty =
               (if m \<in> set (rev anc) \<and> ty = etype ?e3
                then filter (\<lambda>x. \<not> struck (filter (\<lambda>en. capture en = False)
                                                 (regs w3 m ty)) x)
                       (regs w3 m ty)
                else regs w3 m ty))"
          unfolding eq by auto
        from n3 ta have "y3 = None \<longrightarrow> map view cs3 = ?S3 \<and> fresh e4 \<and>
                  (\<forall>ty. regs w4 t ty = regs w3 t ty)"
          by simp
        with c3 v3 show ?thesis by blast
      next
        case False
        with p3 have "y3 = None" "e4 = e3" "w4 = w3" by simp_all
        moreover have "calls w3 = calls w3 @ [] \<and> console w3 = console w3 @ reports [] \<and>
            prefix (map view []) ?S3 \<and> map view [] = ?S3"
          using False by simp
        ultimately show ?thesis using f3 by blast
      qed
      then obtain cs3 where
        c3: "calls w4 = calls w3 @ cs3" "console w4 = console w3 @ reports cs3" and
        v3: "prefix (map view cs3) ?S3" and
        n3: "y3 = None \<longrightarrow> map view cs3 = ?S3 \<and> fresh e4 \<and>
                  (\<forall>ty. regs w4 t ty = regs w3 t ty)"
        by blast
      have c123: "calls w4 = calls w @ cs1 @ cs2 @ cs3"
        "console w4 = console w @ reports (cs1 @ cs2 @ cs3)"
        using c12 c3 by (simp_all add: reports_append)
      have pre: "prefix (map view (cs1 @ cs2 @ cs3)) (schedule w (anc @ [t]) e0)"
        unfolding sch using e1 v2 v3 by simp
      have res: "(x, e', w') =
          (case y3 of Some err \<Rightarrow> Inl err | None \<Rightarrow> Inr (\<not> defaultPrevented e4), e4, w4)"
        using r p1 p2 p3 y1 y2 ns2 ns3 k3
        by (cases "bubbles e0"; cases y3) (simp_all add: dispatch_phases_def)
      show ?thesis
      proof (cases y3)
        case (Some err)
        with res have "x = Inl err" "e' = e4" "w' = w4" by simp_all
        with c123 pre show ?thesis by auto
      next
        case None
        with res have xx: "x = Inr (\<not> defaultPrevented e4)" "e' = e4" "w' = w4" by simp_all
        from None n3 have "map view (cs1 @ cs2 @ cs3) = schedule w (anc @ [t]) e0"
          unfolding sch using e1 v2 by simp
        with c123 pre have
          "\<exists>cs. calls w4 = calls w @ cs \<and> console w4 = console w @ reports cs \<and>
               prefix (map view cs) (schedule w (anc @ [t]) e0) \<and>
               map view cs = schedule w (anc @ [t]) e0"
          by blast
        with xx None n3 t3 show ?thesis by simp
      qed
    qed
  qed
qed

lemma schedule_target: "schedule w path (e\<lparr>target := x\<rparr>) = schedule w path e"
  by (simp add: schedule_def)

text \<open>
  A dispatch to plain listeners of an event with its stop flags unset: the calls follow
  the schedule, and are all of it when the dispatch returns.
\<close>

lemma dispatchEvent_plain:
  assumes p: "plain fns" and f: "fresh ev" and a: "ancestry (parentNode w) (Some t) ch"
      and d: "dispatchEvent fns t ev w = Some (x, e', w')"
  shows "(\<exists>cs. calls w' = calls w @ cs \<and> console w' = console w @ reports cs \<and>
               prefix (map view cs) (schedule w (rev ch) ev) \<and>
               ((\<exists>b. x = Inr b) \<longrightarrow> map view cs = schedule w (rev ch) ev)) \<and>
         ((\<exists>b. x = Inr b) \<longrightarrow>
            fresh e' \<and>
            (\<forall>ty. regs w' t ty =
               (if ty = etype ev
                then filter (\<lambda>x. \<not> struck (regs w t ty) x) (regs w t ty)
                else regs w t ty)))"
proof -
  from a obtain up where ch: "ch = t # up" by (cases ch) auto
  from ancestry_distinct [OF a] ch have dd: "distinct (rev up @ [t])" by auto
  let ?e0 = "ev\<lparr>target := Some t\<rparr>"
  have f0: "fresh ?e0" using f by (simp add: fresh_def)
  from dispatchEvent_ancestry [OF a, of fns ev] d ch have
    x: "dispatch_phases fns t (rev up @ [t]) ?e0 w = (x, e', w')"
    by simp
  from dispatch_phases_plain [OF p f0 dd x] show ?thesis
    by (simp add: ch schedule_target)
qed

lemma regs_readable: "regs w n ty \<noteq> [] \<Longrightarrow> readable w n ty"
  using regs_unreadable [of w n ty] by blast

text \<open>
  Claim C1. Take listeners that neither stop the event nor change a registry (they may
  prevent the default, throw and mutate the tree), an event whose stop flags are unset and a
  target with a finite ancestor chain \<open>ch\<close> (the target first, the root last). Then
  \<^verbatim>\<open>dispatchEvent\<close> ends, and the listeners it invoked are, in order, an initial part of
  the \<open>schedule\<close>, and exactly the schedule when the dispatch returns: for every path
  member but the target, root first, its registrations with \<open>capture = true\<close> (phase 1);
  then all registrations of the target in registration order, whatever their capture flag
  (phase 2); then, only if the event bubbles, for every path member but the target, target
  side first, its registrations with \<open>capture = false\<close> (phase 3). The dispatch returns
  when every node of the chain is \<open>readable\<close> under the event's type; it throws, and can
  stop short of the whole schedule, only where a registry holds an inherited property
  under that type. In particular on a chain root, A, B with one capture listener on the
  root, a capture and a non-capture listener on B and a non-capture listener on A, a
  bubbling event dispatched on B returns and has invoked root-capture, B-capture,
  B-non-capture, A-non-capture.
\<close>

theorem dispatch_order:
  assumes "plain fns" and "fresh ev" and "ancestry (parentNode w) (Some t) ch"
  shows "\<exists>x e' w' cs. dispatchEvent fns t ev w = Some (x, e', w') \<and>
           calls w' = calls w @ cs \<and>
           prefix (map view cs) (schedule w (rev ch) ev) \<and>
           ((\<exists>b. x = Inr b) \<longrightarrow> map view cs = schedule w (rev ch) ev) \<and>
           ((\<forall>n\<in>set ch. readable w n (etype ev)) \<longrightarrow> x = Inr (\<not> defaultPrevented e')) \<and>
           (\<forall>root a rc bc bn an.
              ch = [t, a, root] \<and> bubbles ev \<and>
              regs w root (etype ev) = [rc] \<and> capture rc \<and>
              regs w t (etype ev) = [bc, bn] \<and> capture bc \<and> \<not> capture bn \<and>
              regs w a (etype ev) = [an] \<and> \<not> capture an \<longrightarrow>
              x = Inr (\<not> defaultPrevented e') \<and>
              map view cs =
                [(root, rc, CAPTURING_PHASE), (t, bc, AT_TARGET), (t, bn, AT_TARGET),
                 (a, an, BUBBLING_PHASE)])"
proof -
  from dispatchEvent_returns [OF assms(3)] obtain x e' w' where
    d: "dispatchEvent fns t ev w = Some (x, e', w')"
    by blast
  from dispatchEvent_plain [OF assms d] obtain cs where
    c: "calls w' = calls w @ cs" and
    pre: "prefix (map view cs) (schedule w (rev ch) ev)" and
    s: "(\<exists>b. x = Inr b) \<longrightarrow> map view cs = schedule w (rev ch) ev"
    by blast
  have n: "(\<forall>n\<in>set ch. readable w n (etype ev)) \<longrightarrow> x = Inr (\<not> defaultPrevented e')"
    using dispatchEvent_normal [OF assms(3), of ev fns] d by auto
  have "\<forall>root a rc bc bn an.
              ch = [t, a, root] \<and> bubbles ev \<and>
              regs w root (etype ev) = [rc] \<and> capture rc \<and>
              regs w t (etype ev) = [bc, bn] \<and> capture bc \<and> \<not> capture bn \<and>
              regs w a (etype ev) = [an] \<and> \<not> capture an \<longrightarrow>
              x = Inr (\<not> defaultPrevented e') \<and>
              map view cs =
                [(root, rc, CAPTURING_PHASE), (t, bc, AT_TARGET), (t, bn, AT_TARGET),
                 (a, an, BUBBLING_PHASE)]"
  proof (intro allI impI)
    fix root a rc bc bn an
    assume h: "ch = [t, a, root] \<and> bubbles ev \<and>
              regs w root (etype ev) = [rc] \<and> capture rc \<and>
              regs w t (etype ev) = [bc, bn] \<and> capture bc \<and> \<not> capture bn \<and>
              regs w a (etype ev) = [an] \<and> \<not> capture an"
    then have "\<forall>n\<in>set ch. readable w n (etype ev)"
      by (auto intro: regs_readable)
    with n have x: "x = Inr (\<not> defaultPrevented e')" by simp
    with s have "map view cs = schedule w (rev ch) ev" by simp
    with h have "map view cs =
                [(root, rc, CAPTURING_PHASE), (t, bc, AT_TARGET), (t, bn, AT_TARGET),
                 (a, an, BUBBLING_PHASE)]"
      by (auto simp: schedule_def)
    with x show "x = Inr (\<not> defaultPrevented e') \<and>
              map view cs =
                [(root, rc, CAPTURING_PHASE), (t, bc, AT_TARGET), (t, bn, AT_TARGET),
                 (a, an, BUBBLING_PHASE)]"
      by simp
  qed
  note scenario = this
  show ?thesis
  proof (intro exI conjI)
    show "dispatchEvent fns t ev w = Some (x, e', w')" by (rule d)
    show "calls w' = calls w @ cs" by (rule c)
    show "prefix (map view cs) (schedule w (rev ch) ev)" by (rule pre)
    show "(\<exists>b. x = Inr b) \<longrightarrow> map view cs = schedule w (rev ch) ev" by (rule s)
    show "(\<forall>n\<in>set ch. readable w n (etype ev)) \<longrightarrow> x = Inr (\<not> defaultPrevented e')"
      by (rule n)
    show "\<forall>root a rc bc bn an.
              ch = [t, a, root] \<and> bubbles ev \<and>
              regs w root (etype ev) = [rc] \<and> capture rc \<and>
              regs w t (etype ev) = [bc, bn] \<and> capture bc \<and> \<not> capture bn \<and>
              regs w a (etype ev) = [an] \<and> \<not> capture an \<longrightarrow>
              x = Inr (\<not> defaultPrevented e') \<and>
              map view cs =
                [(root, rc, CAPTURING_PHASE), (t, bc, AT_TARGET), (t, bn, AT_TARGET),
                 (a, an, BUBBLING_PHASE)]"
      by (rule scenario)
  qed
qed

text \<open>
  Claim C8, as amended. On a target with a finite ancestor chain a dispatch ends, and
  every exception a listener raised was handed to \<^verbatim>\<open>console.error\<close>, in the order of the
  calls (\<open>reports\<close> lists the exceptions of the calls), and nothing else was. When no node
  of the chain holds, under the event's type, a property inherited from
  \<^verbatim>\<open>Object.prototype\<close> (\<open>readable\<close>), the dispatch returns, whatever the listeners do and
  however many of them throw, and what it returns is the negation of \<open>defaultPrevented\<close>:
  no exception reaches the caller. Listeners that throw, but neither stop the event nor
  change a registry, then leave the schedule of an event that arrived with its stop flags
  unset complete: every listener of every phase is still invoked.
\<close>

theorem listener_failure_isolated:
  assumes "ancestry (parentNode w) (Some t) ch"
  shows "\<exists>x e' w' cs. dispatchEvent fns t ev w = Some (x, e', w') \<and>
           calls w' = calls w @ cs \<and> console w' = console w @ reports cs \<and>
           ((\<forall>n\<in>set ch. readable w n (etype ev)) \<longrightarrow>
              x = Inr (\<not> defaultPrevented e') \<and>
              (plain fns \<and> fresh ev \<longrightarrow> map view cs = schedule w (rev ch) ev))"
proof -
  from dispatchEvent_returns [OF assms] obtain x e' w' where
    d: "dispatchEvent fns t ev w = Some (x, e', w')"
    by blast
  from dispatchEvent_segment [OF d] obtain cs where
    c: "calls w' = calls w @ cs" "console w' = console w @ reports cs"
    by blast
  have n: "(\<forall>n\<in>set ch. readable w n (etype ev)) \<longrightarrow> x = Inr (\<not> defaultPrevented e')"
    using dispatchEvent_normal [OF assms, of ev fns] d by auto
  have "plain fns \<and> fresh ev \<and> (\<exists>b. x = Inr b) \<longrightarrow> map view cs = schedule w (rev ch) ev"
  proof
    assume h: "plain fns \<and> fresh ev \<and> (\<exists>b. x = Inr b)"
    then have "plain fns" "fresh ev" by simp_all
    from dispatchEvent_plain [OF this assms d] h c(1)
    show "map view cs = schedule w (rev ch) ev" by auto
  qed
  with n have "(\<forall>n\<in>set ch. readable w n (etype ev)) \<longrightarrow>
              x = Inr (\<not> defaultPrevented e') \<and>
              (plain fns \<and> fresh ev \<longrightarrow> map view cs = schedule w (rev ch) ev)"
    by simp
  with d c show ?thesis by (intro exI conjI)
qed

subsection \<open>One-shot registrations\<close>









lemma scene_eval:
  "ancestry (parentNode scene) (Some 2) [2, 1, 0]"
  "calls scene = []" "console scene = []"
  "regs scene 0 ''click'' = [\<lparr>listener = 10, capture = True, once = False\<rparr>]"
  "regs scene 2 ''click'' = [\<lparr>listener = 11, capture = True, once = False\<rparr>,
                                \<lparr>listener = 12, capture = False, once = False\<rparr>]"
  "regs scene 1 ''click'' = [\<lparr>listener = 13, capture = False, once = False\<rparr>]"
  by (simp_all add: run_defs scene_def regs_def)

lemmas scene_facts = scene_eval scene_eval(1,6) [unfolded One_nat_def]

lemma scene_readable:
  "readable scene 2 ''click''" "readable scene 1 ''click''" "readable scene 0 ''click''"
  by (simp_all add: run_defs scene_def readable_def)

lemma scene_toString:
  "regs scene 2 ''toString'' = []" "regs scene 1 ''toString'' = []"
  "regs scene 0 ''toString'' = []"
  by (simp_all add: run_defs scene_def regs_def)

lemma click_eval:
  "fresh (new_Event ty b c)" "etype (new_Event ty b c) = ty" "bubbles (new_Event ty b c) = b"
  by (simp_all add: fresh_def new_Event_def)

lemma plain_quiet: "plain quiet"
  by (simp add: plain_def quiet_def)

lemma plain_thrower: "plain thrower"
  by (simp add: plain_def thrower_def)

lemma scene_schedule:
  "schedule scene (rev [2, 1, 0]) (new_Event ''click'' True False) =
     [(0, \<lparr>listener = 10, capture = True, once = False\<rparr>, CAPTURING_PHASE),
      (2, \<lparr>listener = 11, capture = True, once = False\<rparr>, AT_TARGET),
      (2, \<lparr>listener = 12, capture = False, once = False\<rparr>, AT_TARGET),
      (1, \<lparr>listener = 13, capture = False, once = False\<rparr>, BUBBLING_PHASE)]"
  "schedule scene (rev [2, 1, 0]) (new_Event ''toString'' True False) = []"
  by (simp_all add: schedule_def scene_facts scene_toString scene_toString [unfolded One_nat_def]
      click_eval)

theorem dispatch_order_witness:
  "plain quiet \<and> fresh (new_Event ''click'' True False) \<and>
   fresh (new_Event ''toString'' True False) \<and>
   ancestry (parentNode scene) (Some 2) [2, 1, 0] \<and>
   (\<exists>e' w'. dispatchEvent quiet 2 (new_Event ''click'' True False) scene
        = Some (Inr (\<not> defaultPrevented e'), e', w') \<and>
      map view (calls w') =
        [(0, \<lparr>listener = 10, capture = True, once = False\<rparr>, CAPTURING_PHASE),
         (2, \<lparr>listener = 11, capture = True, once = False\<rparr>, AT_TARGET),
         (2, \<lparr>listener = 12, capture = False, once = False\<rparr>, AT_TARGET),
         (1, \<lparr>listener = 13, capture = False, once = False\<rparr>, BUBBLING_PHASE)]) \<and>
   (\<exists>x e' w'. dispatchEvent quiet 2 (new_Event ''toString'' True False) scene
        = Some (x, e', w') \<and> calls w' = [])"
proof -
  note h = plain_quiet click_eval(1) [of "''click''" True False] scene_eval(1)
  from dispatch_order [OF h] obtain x e' w' cs where
    d: "dispatchEvent quiet 2 (new_Event ''click'' True False) scene = Some (x, e', w')"
    and c: "calls w' = calls scene @ cs"
    and s: "\<forall>root a rc bc bn an.
              [2, 1, 0] = [2, a, root] \<and> bubbles (new_Event ''click'' True False) \<and>
              regs scene root (etype (new_Event ''click'' True False)) = [rc] \<and>
              capture rc \<and>
              regs scene 2 (etype (new_Event ''click'' True False)) = [bc, bn] \<and>
              capture bc \<and> \<not> capture bn \<and>
              regs scene a (etype (new_Event ''click'' True False)) = [an] \<and>
              \<not> capture an \<longrightarrow>
              x = Inr (\<not> defaultPrevented e') \<and>
              map view cs =
                [(root, rc, CAPTURING_PHASE), (2, bc, AT_TARGET), (2, bn, AT_TARGET),
                 (a, an, BUBBLING_PHASE)]"
    by (elim exE conjE) (rule that)
  from s [rule_format, of 1 0 "\<lparr>listener = 10, capture = True, once = False\<rparr>"
      "\<lparr>listener = 11, capture = True, once = False\<rparr>"
      "\<lparr>listener = 12, capture = False, once = False\<rparr>"
      "\<lparr>listener = 13, capture = False, once = False\<rparr>"]
  have "x = Inr (\<not> defaultPrevented e') \<and> map view cs =
        [(0, \<lparr>listener = 10, capture = True, once = False\<rparr>, CAPTURING_PHASE),
         (2, \<lparr>listener = 11, capture = True, once = False\<rparr>, AT_TARGET),
         (2, \<lparr>listener = 12, capture = False, once = False\<rparr>, AT_TARGET),
         (1, \<lparr>listener = 13, capture = False, once = False\<rparr>, BUBBLING_PHASE)]"
    by (simp add: scene_facts click_eval)
  with c d have one:
    "\<exists>e' w'. dispatchEvent quiet 2 (new_Event ''click'' True False) scene
        = Some (Inr (\<not> defaultPrevented e'), e', w') \<and>
      map view (calls w') =
        [(0, \<lparr>listener = 10, capture = True, once = False\<rparr>, CAPTURING_PHASE),
         (2, \<lparr>listener = 11, capture = True, once = False\<rparr>, AT_TARGET),
         (2, \<lparr>listener = 12, capture = False, once = False\<rparr>, AT_TARGET),
         (1, \<lparr>listener = 13, capture = False, once = False\<rparr>, BUBBLING_PHASE)]"
    by (intro exI [of _ e'] exI [of _ w']) (simp add: scene_eval)
  note k = plain_quiet click_eval(1) [of "''toString''" True False] scene_eval(1)
  from dispatch_order [OF k] obtain y e2 w2 cs2 where
    d2: "dispatchEvent quiet 2 (new_Event ''toString'' True False) scene = Some (y, e2, w2)"
    and c2: "calls w2 = calls scene @ cs2"
    and p2: "prefix (map view cs2)
               (schedule scene (rev [2, 1, 0]) (new_Event ''toString'' True False))"
    by (elim exE conjE) (rule that)
  from p2 have "cs2 = []" by (simp add: scene_schedule(2) [simplified])
  with c2 d2 have two:
    "\<exists>x e' w'. dispatchEvent quiet 2 (new_Event ''toString'' True False) scene
        = Some (x, e', w') \<and> calls w' = []"
    by (simp add: scene_eval)
  from h k one two show ?thesis by simp
qed

lemma thrower_run:
  "dispatchEvent thrower 2 (new_Event ''click'' True False) scene = Some (x, e', w')
   \<Longrightarrow> x = Inr True \<and>
       console w' = [Error ''boom'', Error ''boom'', Error ''Node not found'']"
  by (auto simp add: run_defs scene_def thrower_def tree_call_def)

theorem listener_failure_isolated_witness:
  "ancestry (parentNode scene) (Some 2) [2, 1, 0] \<and>
   readable scene 2 ''click'' \<and> readable scene 1 ''click'' \<and> readable scene 0 ''click'' \<and>
   plain thrower \<and> fresh (new_Event ''click'' True False) \<and>
   (\<exists>e' w'. dispatchEvent thrower 2 (new_Event ''click'' True False) scene
        = Some (Inr True, e', w') \<and>
      map view (calls w') =
        [(0, \<lparr>listener = 10, capture = True, once = False\<rparr>, CAPTURING_PHASE),
         (2, \<lparr>listener = 11, capture = True, once = False\<rparr>, AT_TARGET),
         (2, \<lparr>listener = 12, capture = False, once = False\<rparr>, AT_TARGET),
         (1, \<lparr>listener = 13, capture = False, once = False\<rparr>, BUBBLING_PHASE)] \<and>
      reports (calls w') = [Error ''boom'', Error ''boom'', Error ''Node not found''] \<and>
      console w' = [Error ''boom'', Error ''boom'', Error ''Node not found''])"
proof -
  from listener_failure_isolated [OF scene_eval(1), of thrower
      "new_Event ''click'' True False"]
  obtain x e' w' cs where
    d: "dispatchEvent thrower 2 (new_Event ''click'' True False) scene = Some (x, e', w')"
    and c: "calls w' = calls scene @ cs" "console w' = console scene @ reports cs"
    and s: "(\<forall>n\<in>set [2, 1, 0]. readable scene n (etype (new_Event ''click'' True False)))
            \<longrightarrow> x = Inr (\<not> defaultPrevented e') \<and>
            (plain thrower \<and> fresh (new_Event ''click'' True False) \<longrightarrow>
            map view cs = schedule scene (rev [2, 1, 0]) (new_Event ''click'' True False))"
    by (elim exE conjE) (rule that)
  from s c have "map view (calls w') =
        [(0, \<lparr>listener = 10, capture = True, once = False\<rparr>, CAPTURING_PHASE),
         (2, \<lparr>listener = 11, capture = True, once = False\<rparr>, AT_TARGET),
         (2, \<lparr>listener = 12, capture = False, once = False\<rparr>, AT_TARGET),
         (1, \<lparr>listener = 13, capture = False, once = False\<rparr>, BUBBLING_PHASE)] \<and>
      reports (calls w') = console w'"
    by (simp add: plain_thrower click_eval scene_schedule(1) [simplified] scene_eval
        scene_readable scene_readable [unfolded One_nat_def])
  with thrower_run [OF d] d have
    "\<exists>e' w'. dispatchEvent thrower 2 (new_Event ''click'' True False) scene
        = Some (Inr True, e', w') \<and>
      map view (calls w') =
        [(0, \<lparr>listener = 10, capture = True, once = False\<rparr>, CAPTURING_PHASE),
         (2, \<lparr>listener = 11, capture = True, once = False\<rparr>, AT_TARGET),
         (2, \<lparr>listener = 12, capture = False, once = False\<rparr>, AT_TARGET),
         (1, \<lparr>listener = 13, capture = False, once = False\<rparr>, BUBBLING_PHASE)] \<and>
      reports (calls w') = [Error ''boom'', Error ''boom'', Error ''Node not found''] \<and>
      console w' = [Error ''boom'', Error ''boom'', Error ''Node not found'']"
    by (intro exI [of _ e'] exI [of _ w']) simp
  with scene_eval(1) scene_readable plain_thrower click_eval(1) show ?thesis by simp
qed

text \<open>
  The claim as it was stated fails where a dispatch does not complete with a boolean: on a
  node that is its own ancestor, which \<^verbatim>\<open>appendChild\<close> makes without complaint, the path
  loop never ends; and under an event type that names a property of \<^verbatim>\<open>Object.prototype\<close>
  the first registry read throws a \<^verbatim>\<open>TypeError\<close> to the caller.
\<close>

theorem listener_failure_isolated_counterexample:
  "dispatchEvent thrower 0 (new_Event ''click'' True False) knot = None \<and>
   map_option fst (dispatchEvent thrower 2 (new_Event ''constructor'' True False) scene)
     = Some (Inl (TypeError ''listeners is not iterable''))"
proof -
  have "map_option fst (dispatchEvent thrower 2 (new_Event ''constructor'' True False) scene)
     = Some (Inl (TypeError ''listeners is not iterable''))"
    by (simp add: run_defs scene_def)
  then show ?thesis by (simp add: knot_endless)
qed






subsection \<open>Tree mutation and the tree invariants\<close>

lemma indexOf_Some:
  "indexOf xs x = Some i \<Longrightarrow> i < length xs \<and> xs ! i = x"
proof (induction xs arbitrary: i)
  case Nil
  then show ?case by simp
next
  case (Cons y ys)
  then show ?case by (cases "y = x") auto
qed

lemma indexOf_member: "x \<in> set xs \<Longrightarrow> \<exists>i. indexOf xs x = Some i"
  using indexOf_None [of xs x] by (cases "indexOf xs x") auto

lemma splice_remove_distinct:
  assumes "distinct xs" and "i < length xs"
  shows "distinct (splice_remove i xs) \<and> set (splice_remove i xs) = set xs - {xs ! i}"
proof -
  from assms(2) have xs: "xs = take i xs @ xs ! i # drop (Suc i) xs"
    by (rule id_take_nth_drop)
  from assms(1) have "distinct (take i xs @ xs ! i # drop (Suc i) xs)"
    by (simp add: xs [symmetric])
  moreover have "set xs = set (take i xs) \<union> {xs ! i} \<union> set (drop (Suc i) xs)"
    by (subst xs) auto
  ultimately show ?thesis unfolding splice_remove_def by auto
qed

lemma splice_insert_distinct:
  assumes "distinct xs" and "x \<notin> set xs"
  shows "distinct (splice_insert i x xs) \<and> set (splice_insert i x xs) = insert x (set xs)"
proof -
  have d: "distinct (take i xs) \<and> distinct (drop i xs) \<and>
           set (take i xs) \<inter> set (drop i xs) = {}"
    using distinct_append [of "take i xs" "drop i xs"] assms(1) by simp
  have s: "set xs = set (take i xs) \<union> set (drop i xs)"
    using set_append [of "take i xs" "drop i xs"] by simp
  have m: "x \<notin> set (take i xs)" "x \<notin> set (drop i xs)"
    using assms(2) by (auto dest: in_set_takeD in_set_dropD)
  show ?thesis unfolding splice_insert_def using d s m by auto
qed

lemma assign_index_distinct:
  assumes "distinct xs" and "x \<notin> set xs" and "i < length xs"
  shows "distinct (assign_index i x xs) \<and>
         set (assign_index i x xs) = insert x (set xs - {xs ! i})"
proof -
  from assms(3) have xs: "xs = take i xs @ xs ! i # drop (Suc i) xs"
    by (rule id_take_nth_drop)
  have u: "xs[i := x] = take i xs @ x # drop (Suc i) xs"
    using assms(3) by (rule upd_conv_take_nth_drop)
  from assms(1) have d: "distinct (take i xs @ xs ! i # drop (Suc i) xs)"
    by (simp add: xs [symmetric])
  have s: "set xs = set (take i xs) \<union> {xs ! i} \<union> set (drop (Suc i) xs)"
    by (subst xs) auto
  have m: "x \<notin> set (take i xs)" "x \<notin> set (drop (Suc i) xs)"
    using assms(2) by (auto dest: in_set_takeD in_set_dropD)
  show ?thesis unfolding assign_index_def using assms(3) u d s m by auto
qed

text \<open>What the successful operations do, field by field.\<close>

lemma removeChild_child:
  assumes "wf_tree w" and "parentNode w c = Some p"
  shows "\<exists>w'. removeChild p c w = (Inr c, w') \<and>
           parentNode w' = (parentNode w)(c := None) \<and>
           (\<forall>q. q \<noteq> p \<longrightarrow> childNodes w' q = childNodes w q) \<and>
           distinct (childNodes w' p) \<and>
           set (childNodes w' p) = set (childNodes w p) - {c}"
proof -
  from assms have m: "c \<in> set (childNodes w p)" and d: "distinct (childNodes w p)"
    by (simp_all add: wf_tree_def)
  from indexOf_member [OF m] obtain i where i: "indexOf (childNodes w p) c = Some i"
    by blast
  from indexOf_Some [OF i] have l: "i < length (childNodes w p)" "childNodes w p ! i = c"
    by simp_all
  from splice_remove_distinct [OF d l(1)] l(2) i show ?thesis
    by (simp add: removeChild_def Let_def)
qed

lemma wf_tree_detached:
  assumes w: "wf_tree w"
      and pn: "parentNode w' = (parentNode w)(c := None)"
      and other: "\<forall>q. parentNode w c \<noteq> Some q \<longrightarrow> childNodes w' q = childNodes w q"
      and own: "\<forall>q. parentNode w c = Some q \<longrightarrow>
                  distinct (childNodes w' q) \<and>
                  set (childNodes w' q) = set (childNodes w q) - {c}"
  shows "wf_tree w'"
  unfolding wf_tree_def
proof (intro conjI allI)
  fix p x
  show "x \<in> set (childNodes w' p) \<longleftrightarrow> parentNode w' x = Some p"
  proof (cases "parentNode w c = Some p")
    case True
    with own have "set (childNodes w' p) = set (childNodes w p) - {c}" by simp
    with w pn show ?thesis by (auto simp: wf_tree_def)
  next
    case False
    with other have "childNodes w' p = childNodes w p" by simp
    with w pn False show ?thesis by (auto simp: wf_tree_def)
  qed
next
  fix p
  show "distinct (childNodes w' p)"
    using w other own by (cases "parentNode w c = Some p") (auto simp: wf_tree_def)
next
  have "parent_rel w' \<subseteq> parent_rel w"
    using pn by (auto simp: parent_rel_def split: if_splits)
  with w show "wf (parent_rel w')" by (auto simp: wf_tree_def intro: wf_subset)
qed

lemma removeChild_wf_tree:
  assumes "wf_tree w" and "removeChild p c w = (r, w')"
  shows "wf_tree w'"
proof (cases "c \<in> set (childNodes w p)")
  case False
  then have "indexOf (childNodes w p) c = None" by (simp add: indexOf_None)
  with assms show ?thesis by (simp add: removeChild_def)
next
  case True
  with assms(1) have pc: "parentNode w c = Some p" by (simp add: wf_tree_def)
  from removeChild_child [OF assms(1) pc] assms(2) have
    "parentNode w' = (parentNode w)(c := None)"
    "\<forall>q. q \<noteq> p \<longrightarrow> childNodes w' q = childNodes w q"
    "distinct (childNodes w' p)" "set (childNodes w' p) = set (childNodes w p) - {c}"
    by auto
  with assms(1) pc show ?thesis by (intro wf_tree_detached [of w w' c]) auto
qed

lemma detach_wf_tree:
  assumes "wf_tree w"
  shows "\<exists>w1. detach x w = (Inr x, w1) \<and> wf_tree w1 \<and>
           parentNode w1 = (parentNode w)(x := None) \<and>
           (\<forall>q. parentNode w x \<noteq> Some q \<longrightarrow> childNodes w1 q = childNodes w q) \<and>
           parent_rel w1 \<subseteq> parent_rel w"
proof (cases "parentNode w x")
  case None
  then have "parentNode w = (parentNode w)(x := None)" by auto
  with None assms show ?thesis by (auto simp: detach_def)
next
  case (Some p)
  from removeChild_child [OF assms Some] obtain w1 where
    r: "removeChild p x w = (Inr x, w1)" and
    f: "parentNode w1 = (parentNode w)(x := None)"
       "\<forall>q. q \<noteq> p \<longrightarrow> childNodes w1 q = childNodes w q"
    by blast
  from removeChild_wf_tree [OF assms r] have "wf_tree w1" .
  moreover have "parent_rel w1 \<subseteq> parent_rel w"
    using f(1) by (auto simp: parent_rel_def split: if_splits)
  ultimately show ?thesis using Some r f by (auto simp: detach_def)
qed

lemma wf_tree_attached:
  assumes w: "wf_tree w1"
      and free: "parentNode w1 x = None"
      and up: "(x, this) \<notin> (parent_rel w1)\<^sup>*"
      and pn: "parentNode w' = (parentNode w1)(x := Some this)"
      and other: "\<forall>q. q \<noteq> this \<longrightarrow> childNodes w' q = childNodes w1 q"
      and own: "distinct (childNodes w' this) \<and>
                set (childNodes w' this) = insert x (set (childNodes w1 this))"
  shows "wf_tree w'"
  unfolding wf_tree_def
proof (intro conjI allI)
  from w free have nowhere: "\<forall>q. x \<notin> set (childNodes w1 q)" by (simp add: wf_tree_def)
  fix p c
  show "c \<in> set (childNodes w' p) \<longleftrightarrow> parentNode w' c = Some p"
  proof (cases "p = this")
    case True
    with own w pn nowhere show ?thesis by (auto simp: wf_tree_def)
  next
    case False
    with other have "childNodes w' p = childNodes w1 p" by simp
    with w pn nowhere False show ?thesis by (auto simp: wf_tree_def)
  qed
next
  fix p
  show "distinct (childNodes w' p)"
    using w other own by (cases "p = this") (auto simp: wf_tree_def)
next
  have "parent_rel w' \<subseteq> insert (this, x) (parent_rel w1)"
    using pn by (auto simp: parent_rel_def split: if_splits)
  moreover have "wf (insert (this, x) (parent_rel w1))"
    using w up by (simp add: wf_tree_def)
  ultimately show "wf (parent_rel w')" by (rule wf_subset [rotated])
qed

lemma not_above_mono:
  "(x, this) \<notin> r\<^sup>* \<Longrightarrow> s \<subseteq> r \<Longrightarrow> (x, this) \<notin> s\<^sup>*"
  using rtrancl_mono [of s r] by auto

lemma appendChild_wf_tree:
  assumes w: "wf_tree w" and up: "(x, this) \<notin> (parent_rel w)\<^sup>*"
      and a: "appendChild this x w = (r, w')"
  shows "wf_tree w'"
proof -
  from detach_wf_tree [OF w, of x] obtain w1 where
    d: "detach x w = (Inr x, w1)" and w1: "wf_tree w1" and
    p1: "parentNode w1 = (parentNode w)(x := None)" and
    sub: "parent_rel w1 \<subseteq> parent_rel w"
    by blast
  from w1 p1 have nx: "x \<notin> set (childNodes w1 this)" by (simp add: wf_tree_def)
  from a d have
    "parentNode w' = (parentNode w1)(x := Some this)"
    "\<forall>q. q \<noteq> this \<longrightarrow> childNodes w' q = childNodes w1 q"
    "childNodes w' this = childNodes w1 this @ [x]"
    by (auto simp: appendChild_def Let_def)
  with w1 nx p1 not_above_mono [OF up sub] show ?thesis
    by (intro wf_tree_attached [of w1 x this w']) (auto simp: wf_tree_def)
qed

lemma insertBefore_wf_tree:
  assumes w: "wf_tree w" and up: "(x, this) \<notin> (parent_rel w)\<^sup>*"
      and a: "insertBefore this x ref w = (r, w')"
  shows "wf_tree w'"
proof (cases ref)
  case None
  with a have "appendChild this x w = (r, w')" by (simp add: insertBefore_def)
  with w up show ?thesis by (rule appendChild_wf_tree)
next
  case (Some rf)
  show ?thesis
  proof (cases "indexOf (childNodes w this) rf")
    case None
    with a Some w show ?thesis by (simp add: insertBefore_def)
  next
    case (Some i)
    from detach_wf_tree [OF w, of x] obtain w1 where
      d: "detach x w = (Inr x, w1)" and w1: "wf_tree w1" and
      p1: "parentNode w1 = (parentNode w)(x := None)" and
      sub: "parent_rel w1 \<subseteq> parent_rel w"
      by blast
    from w1 p1 have nx: "x \<notin> set (childNodes w1 this)" by (simp add: wf_tree_def)
    from w1 have dx: "distinct (childNodes w1 this)" by (simp add: wf_tree_def)
    from a d Some \<open>ref = Some rf\<close> have
      "parentNode w' = (parentNode w1)(x := Some this)"
      "\<forall>q. q \<noteq> this \<longrightarrow> childNodes w' q = childNodes w1 q"
      "childNodes w' this = splice_insert i x (childNodes w1 this)"
      by (auto simp: insertBefore_def Let_def)
    with w1 p1 not_above_mono [OF up sub] splice_insert_distinct [OF dx nx, of i]
    show ?thesis
      by (intro wf_tree_attached [of w1 x this w']) auto
  qed
qed

lemma indexOf_inj: "indexOf xs x = Some i \<Longrightarrow> indexOf xs y = Some i \<Longrightarrow> x = y"
  by (auto dest!: indexOf_Some)

lemma removeChild_at:
  assumes "indexOf (childNodes w p) c = Some k"
  shows "removeChild p c w =
           (Inr c, w\<lparr>parentNode := (parentNode w)(c := None),
                     childNodes := (childNodes w)(p := splice_remove k (childNodes w p))\<rparr>)"
  using assms by (simp add: removeChild_def Let_def)

lemma replaceChild_core:
  assumes w1: "wf_tree w1" and free: "parentNode w1 x = None"
      and up: "(x, this) \<notin> (parent_rel w1)\<^sup>*"
      and i: "i < length (childNodes w1 this)" "childNodes w1 this ! i = old"
      and f: "parentNode w' = (parentNode w1)(old := None, x := Some this)"
             "\<forall>q. q \<noteq> this \<longrightarrow> childNodes w' q = childNodes w1 q"
             "childNodes w' this = assign_index i x (childNodes w1 this)"
  shows "wf_tree w'"
proof -
  from i have "old \<in> set (childNodes w1 this)" by (auto simp: in_set_conv_nth)
  with w1 have po1: "parentNode w1 old = Some this" by (simp add: wf_tree_def)
  from removeChild_child [OF w1 po1] obtain wm where
    rm: "removeChild this old w1 = (Inr old, wm)" and
    pm: "parentNode wm = (parentNode w1)(old := None)" and
    om: "\<forall>q. q \<noteq> this \<longrightarrow> childNodes wm q = childNodes w1 q" and
    sm: "set (childNodes wm this) = set (childNodes w1 this) - {old}"
    by blast
  from removeChild_wf_tree [OF w1 rm] have wm: "wf_tree wm" .
  have subm: "parent_rel wm \<subseteq> parent_rel w1"
    using pm by (auto simp: parent_rel_def split: if_splits)
  from w1 free have nx: "x \<notin> set (childNodes w1 this)" by (simp add: wf_tree_def)
  from w1 have dx: "distinct (childNodes w1 this)" by (simp add: wf_tree_def)
  from assign_index_distinct [OF dx nx i(1)] i(2) f(3) have
    g: "distinct (childNodes w' this)"
       "set (childNodes w' this) = insert x (set (childNodes w1 this) - {old})"
    by simp_all
  show ?thesis
  proof (rule wf_tree_attached [of wm x this w'])
    show "wf_tree wm" by (rule wm)
    show "parentNode wm x = None" using pm free by simp
    show "(x, this) \<notin> (parent_rel wm)\<^sup>*" using up subm by (rule not_above_mono)
    show "parentNode w' = (parentNode wm)(x := Some this)" using f(1) pm by simp
    show "\<forall>q. q \<noteq> this \<longrightarrow> childNodes w' q = childNodes wm q" using f(2) om by simp
    show "distinct (childNodes w' this) \<and>
          set (childNodes w' this) = insert x (set (childNodes wm this))"
      using g sm by simp
  qed
qed

lemma replaceChild_wf_tree:
  assumes w: "wf_tree w" and up: "(x, this) \<notin> (parent_rel w)\<^sup>*"
      and ns: "\<not> stale_index w this x old"
      and a: "replaceChild this x old w = (r, w')"
  shows "wf_tree w'"
proof (cases "indexOf (childNodes w this) old")
  case None
  with a w show ?thesis by (simp add: replaceChild_def)
next
  case (Some i)
  let ?xs = "childNodes w this"
  from indexOf_Some [OF Some] have i: "i < length ?xs" "?xs ! i = old"
    by simp_all
  from detach_wf_tree [OF w, of x] obtain w1 where
    d: "detach x w = (Inr x, w1)" and w1: "wf_tree w1" and
    p1: "parentNode w1 = (parentNode w)(x := None)" and
    c1: "\<forall>q. parentNode w x \<noteq> Some q \<longrightarrow> childNodes w1 q = childNodes w q" and
    sub: "parent_rel w1 \<subseteq> parent_rel w"
    by blast
  from a d Some have
    f: "parentNode w' = (parentNode w1)(old := None, x := Some this)"
       "\<forall>q. q \<noteq> this \<longrightarrow> childNodes w' q = childNodes w1 q"
       "childNodes w' this = assign_index i x (childNodes w1 this)"
    by (auto simp: replaceChild_def Let_def)
  have free: "parentNode w1 x = None" using p1 by simp
  note up1 = not_above_mono [OF up sub]
  show ?thesis
  proof (cases "indexOf ?xs x")
    case None
    then have "x \<notin> set ?xs" by (simp add: indexOf_None)
    with w have "parentNode w x \<noteq> Some this" by (simp add: wf_tree_def)
    with c1 have "childNodes w1 this = ?xs" by simp
    with i have "i < length (childNodes w1 this)" "childNodes w1 this ! i = old"
      by simp_all
    from replaceChild_core [OF w1 free up1 this f] show ?thesis .
  next
    case k: (Some k)
    from indexOf_Some [OF k] have kk: "k < length ?xs" "?xs ! k = x" by simp_all
    then have "x \<in> set ?xs" by (auto simp: in_set_conv_nth)
    with w have px: "parentNode w x = Some this" by (simp add: wf_tree_def)
    from d px removeChild_at [OF k] have
      cw1: "childNodes w1 this = splice_remove k ?xs"
      by (auto simp: detach_def)
    from ns k Some have cases: "i < k \<or> (k = i \<and> Suc i = length ?xs)"
      using i(1) by (auto simp: stale_index_def)
    show ?thesis
    proof (cases "i < k")
      case True
      with kk(1) have "i < length (childNodes w1 this)" "childNodes w1 this ! i = ?xs ! i"
        unfolding cw1 splice_remove_def by (simp_all add: nth_append)
      with i(2) have "i < length (childNodes w1 this)" "childNodes w1 this ! i = old"
        by simp_all
      from replaceChild_core [OF w1 free up1 this f] show ?thesis .
    next
      case False
      with cases have e: "k = i" "Suc i = length ?xs" by simp_all
      with kk(2) i(2) have xo: "x = old" by simp
      have len: "length ?xs - 1 = i" "drop (Suc i) ?xs = []" using e by simp_all
      have "childNodes w1 this = butlast ?xs"
        unfolding cw1 splice_remove_def butlast_conv_take len e(1) by simp
      moreover have "?xs \<noteq> []" using i(1) by auto
      moreover have "last ?xs = x"
      proof -
        have "last ?xs = ?xs ! (length ?xs - 1)" using \<open>?xs \<noteq> []\<close> by (rule last_conv_nth)
        also have "\<dots> = ?xs ! i" by (simp only: len(1))
        also have "\<dots> = x" using kk(2) e(1) by simp
        finally show ?thesis .
      qed
      ultimately have "childNodes w' this = ?xs"
        using f(3) len(1) append_butlast_last_id [of ?xs]
        by (auto simp: assign_index_def)
      moreover have "\<forall>q. q \<noteq> this \<longrightarrow> childNodes w1 q = childNodes w q"
        using d px k by (auto simp: detach_def removeChild_at)
      ultimately have "childNodes w' = childNodes w" using f(2) by auto
      moreover have "parentNode w' = parentNode w" using f(1) p1 px xo by auto
      ultimately show ?thesis using w by (simp add: wf_tree_def parent_rel_def)
    qed
  qed
qed

lemma splice_remove_nth:
  assumes "k < length xs" and "j < length xs - 1"
  shows "splice_remove k xs ! j = (if j < k then xs ! j else xs ! Suc j)"
  using assms unfolding splice_remove_def by (auto simp: nth_append min_def)

text \<open>
  The stale index is exactly where \<^verbatim>\<open>replaceChild\<close> goes wrong on a well-formed tree: it
  leaves the old child in the list without parent, or drops the next sibling from the
  list with its parent reference standing.
\<close>

lemma replaceChild_stale:
  assumes w: "wf_tree w" and st: "stale_index w this x old"
  shows "\<not> wf_tree (snd (replaceChild this x old w))"
proof
  let ?xs = "childNodes w this"
  let ?w' = "snd (replaceChild this x old w)"
  assume w': "wf_tree ?w'"
  from st obtain k i where
    k: "indexOf ?xs x = Some k" and i: "indexOf ?xs old = Some i" and
    c: "k < i \<or> (k = i \<and> Suc i < length ?xs)"
    by (auto simp: stale_index_def split: option.splits)
  from indexOf_Some [OF k] have kk: "k < length ?xs" "?xs ! k = x" by simp_all
  from indexOf_Some [OF i] have ii: "i < length ?xs" "?xs ! i = old" by simp_all
  from w have dx: "distinct ?xs" by (simp add: wf_tree_def)
  from kk have "x \<in> set ?xs" by (auto simp: in_set_conv_nth)
  with w have px: "parentNode w x = Some this" by (simp add: wf_tree_def)
  let ?ys = "splice_remove k ?xs"
  from splice_remove_distinct [OF dx kk(1)] kk(2) have
    dy: "distinct ?ys" and sy: "set ?ys = set ?xs - {x}"
    by simp_all
  have ly: "length ?ys = length ?xs - 1"
    using kk(1) by (simp add: splice_remove_def)
  have pn: "parentNode ?w' = (parentNode w)(x := None, old := None, x := Some this)"
    and cn: "childNodes ?w' this = assign_index i x ?ys"
    using i px removeChild_at [OF k]
    by (simp_all add: replaceChild_def detach_def Let_def)
  show False
  proof (cases "Suc i < length ?xs")
    case False
    with ii(1) c have e: "Suc i = length ?xs" "k < i" by simp_all
    then have "x \<noteq> old" using kk ii dx by (auto simp: nth_eq_iff_index_eq)
    moreover have "old \<in> set ?xs" using ii by (auto simp: in_set_conv_nth)
    ultimately have "old \<in> set ?ys" using sy by simp
    moreover have "\<not> i < length ?ys" using ly e by arith
    then have "childNodes ?w' this = ?ys @ [x]"
      unfolding cn assign_index_def by (simp only: if_False)
    ultimately have "old \<in> set (childNodes ?w' this)" by (simp only: set_append UnI1)
    with w' have "parentNode ?w' old = Some this" by (simp add: wf_tree_def)
    with pn \<open>x \<noteq> old\<close> show False by simp
  next
    case True
    let ?z = "?xs ! Suc i"
    from c have ki: "k \<le> i" by auto
    have zx: "?z \<noteq> x" using kk True ki dx by (auto simp: nth_eq_iff_index_eq)
    have zo: "?z \<noteq> old" using ii True dx by (auto simp: nth_eq_iff_index_eq)
    have iy: "i < length ?ys" using ly True by simp
    have yz: "?ys ! i = ?z"
      using splice_remove_nth [OF kk(1), of i] True ki by simp
    have nx: "x \<notin> set ?ys" using sy by simp
    from assign_index_distinct [OF dy nx iy] cn yz have
      "set (childNodes ?w' this) = insert x (set ?ys - {?z})"
      by simp
    with zx have "?z \<notin> set (childNodes ?w' this)" by simp
    with w' have "parentNode ?w' ?z \<noteq> Some this" by (simp add: wf_tree_def)
    moreover have "?z \<in> set ?xs" using True by simp
    with w have "parentNode w ?z = Some this" by (simp add: wf_tree_def)
    ultimately show False using pn zx zo by simp
  qed
qed

text \<open>On a well-formed tree every node has its ancestor chain, so a dispatch ends.\<close>

lemma wf_tree_ancestry:
  assumes "wf (parent_rel w)"
  shows "\<exists>ch. ancestry (parentNode w) (Some n) ch"
  using assms
proof (induction n rule: wf_induct_rule)
  case (less n)
  show ?case
  proof (cases "parentNode w n")
    case None
    then have "ancestry (parentNode w) (Some n) [n]" by simp
    then show ?thesis by blast
  next
    case (Some p)
    then have "(p, n) \<in> parent_rel w" by (simp add: parent_rel_def)
    from less.IH [OF this] obtain ch where "ancestry (parentNode w) (Some p) ch" by blast
    with Some have "ancestry (parentNode w) (Some n) (n # ch)" by simp
    then show ?thesis by blast
  qed
qed

lemma dispatchEvent_on_tree:
  assumes "wf_tree w"
  shows "\<exists>x e' w'. dispatchEvent fns t ev w = Some (x, e', w')"
proof -
  from assms have "wf (parent_rel w)" by (simp add: wf_tree_def)
  from wf_tree_ancestry [OF this] obtain ch where "ancestry (parentNode w) (Some t) ch"
    by blast
  then show ?thesis by (rule dispatchEvent_returns)
qed

text \<open>
  Claim C7, as amended. On a well-formed tree (a node is in the children of \<open>p\<close> exactly
  when its parent reference is \<open>p\<close>, no node occurs twice among the children of a node,
  and the parent relation is well-founded) each of \<^verbatim>\<open>appendChild\<close>, \<^verbatim>\<open>insertBefore\<close>,
  \<^verbatim>\<open>removeChild\<close> and \<^verbatim>\<open>replaceChild\<close> leaves a well-formed tree, provided the node
  being attached is neither the receiver nor one of its ancestors. The calls of
  \<^verbatim>\<open>replaceChild\<close> that use a stale index (\<open>stale_index\<close>) are left out.
\<close>

theorem tree_invariants_preserved:
  assumes "wf_tree w"
  shows "(appendChild this x w = (ra, wa) \<and> (x, this) \<notin> (parent_rel w)\<^sup>*
            \<longrightarrow> wf_tree wa) \<and>
         (insertBefore this x ref w = (rb, wb) \<and> (x, this) \<notin> (parent_rel w)\<^sup>*
            \<longrightarrow> wf_tree wb) \<and>
         (removeChild this x w = (rc, wc) \<longrightarrow> wf_tree wc) \<and>
         (replaceChild this x old w = (rd, wd) \<and> (x, this) \<notin> (parent_rel w)\<^sup>* \<and>
          \<not> stale_index w this x old
            \<longrightarrow> wf_tree wd)"
  using assms
  by (auto intro: appendChild_wf_tree insertBefore_wf_tree removeChild_wf_tree
      replaceChild_wf_tree)

lemmas tree_defs =
  appendChild_def insertBefore_def replaceChild_def removeChild_def detach_def
  splice_remove_def splice_insert_def assign_index_def blank_def family_def

lemma leaf_not_above:
  assumes "\<forall>c. parentNode w c \<noteq> Some x" and "x \<noteq> this"
  shows "(x, this) \<notin> (parent_rel w)\<^sup>*"
proof
  assume "(x, this) \<in> (parent_rel w)\<^sup>*"
  then show False
    using assms by (cases rule: converse_rtranclE) (auto simp: parent_rel_def)
qed

lemma wf_tree_blank: "wf_tree blank"
  by (simp add: wf_tree_def blank_def parent_rel_def)

lemma wf_tree_family: "wf_tree family"
proof -
  have a: "(1, 0) \<notin> (parent_rel blank)\<^sup>*"
    by (rule leaf_not_above) (simp_all add: blank_def)
  have w1: "wf_tree (snd (appendChild 0 1 blank))"
    by (rule appendChild_wf_tree [OF wf_tree_blank a, of "fst (appendChild 0 1 blank)"]) simp
  have b: "(2, 0) \<notin> (parent_rel (snd (appendChild 0 1 blank)))\<^sup>*"
    by (rule leaf_not_above) (simp_all add: tree_defs)
  show ?thesis
    unfolding family_def
    by (rule appendChild_wf_tree [OF w1 b,
          of "fst (appendChild 0 2 (snd (appendChild 0 1 blank)))"]) simp
qed

lemma family_eval:
  "childNodes family 0 = [1, 2]"
  "\<not> stale_index family 0 3 1" "\<not> stale_index family 0 2 1" "\<not> stale_index family 0 2 2"
  "(1, 2) \<notin> (parent_rel family)\<^sup>*" "(3, 0) \<notin> (parent_rel family)\<^sup>*"
  "(2, 0) \<notin> (parent_rel family)\<^sup>*"
proof -
  show "childNodes family 0 = [1, 2]"
    "\<not> stale_index family 0 3 1" "\<not> stale_index family 0 2 1" "\<not> stale_index family 0 2 2"
    by (simp_all add: tree_defs stale_index_def)
  show "(1, 2) \<notin> (parent_rel family)\<^sup>*"
    by (rule leaf_not_above) (simp_all add: tree_defs)
  show "(3, 0) \<notin> (parent_rel family)\<^sup>*"
    by (rule leaf_not_above) (simp_all add: tree_defs)
  show "(2, 0) \<notin> (parent_rel family)\<^sup>*"
    by (rule leaf_not_above) (simp_all add: tree_defs)
qed

theorem tree_invariants_preserved_witness:
  "wf_tree family \<and> childNodes family 0 = [1, 2] \<and>
   (1, 2) \<notin> (parent_rel family)\<^sup>* \<and> (3, 0) \<notin> (parent_rel family)\<^sup>* \<and>
   (2, 0) \<notin> (parent_rel family)\<^sup>* \<and>
   \<not> stale_index family 0 3 1 \<and> \<not> stale_index family 0 2 1 \<and>
   \<not> stale_index family 0 2 2 \<and>
   wf_tree (snd (appendChild 2 1 family)) \<and>
   childNodes (snd (appendChild 2 1 family)) 0 = [2] \<and>
   childNodes (snd (appendChild 2 1 family)) 2 = [1] \<and>
   wf_tree (snd (insertBefore 0 3 (Some 2) family)) \<and>
   childNodes (snd (insertBefore 0 3 (Some 2) family)) 0 = [1, 3, 2] \<and>
   wf_tree (snd (removeChild 0 1 family)) \<and>
   childNodes (snd (removeChild 0 1 family)) 0 = [2] \<and>
   wf_tree (snd (replaceChild 0 3 1 family)) \<and>
   childNodes (snd (replaceChild 0 3 1 family)) 0 = [3, 2] \<and>
   wf_tree (snd (replaceChild 0 2 1 family)) \<and>
   childNodes (snd (replaceChild 0 2 1 family)) 0 = [2] \<and>
   wf_tree (snd (replaceChild 0 2 2 family)) \<and>
   childNodes (snd (replaceChild 0 2 2 family)) 0 = [1, 2]"
proof -
  note t = tree_invariants_preserved [OF wf_tree_family]
  have "wf_tree (snd (appendChild 2 1 family))"
    using t [where this = 2 and x = 1 and ra = "fst (appendChild 2 1 family)"
               and wa = "snd (appendChild 2 1 family)"] family_eval
    by simp
  moreover have "wf_tree (snd (insertBefore 0 3 (Some 2) family))"
    using t [where this = 0 and x = 3 and ref = "Some 2"
               and rb = "fst (insertBefore 0 3 (Some 2) family)"
               and wb = "snd (insertBefore 0 3 (Some 2) family)"] family_eval
    by simp
  moreover have "wf_tree (snd (removeChild 0 1 family))"
    using t [where this = 0 and x = 1 and rc = "fst (removeChild 0 1 family)"
               and wc = "snd (removeChild 0 1 family)"]
    by simp
  moreover have "wf_tree (snd (replaceChild 0 3 1 family))"
    using t [where this = 0 and x = 3 and old = 1
               and rd = "fst (replaceChild 0 3 1 family)"
               and wd = "snd (replaceChild 0 3 1 family)"] family_eval
    by simp
  moreover have "wf_tree (snd (replaceChild 0 2 1 family))"
    using t [where this = 0 and x = 2 and old = 1
               and rd = "fst (replaceChild 0 2 1 family)"
               and wd = "snd (replaceChild 0 2 1 family)"] family_eval
    by simp
  moreover have "wf_tree (snd (replaceChild 0 2 2 family))"
    using t [where this = 0 and x = 2 and old = 2
               and rd = "fst (replaceChild 0 2 2 family)"
               and wd = "snd (replaceChild 0 2 2 family)"] family_eval
    by simp
  moreover have
    "childNodes (snd (appendChild 2 1 family)) 0 = [2]"
    "childNodes (snd (appendChild 2 1 family)) 2 = [1]"
    "childNodes (snd (insertBefore 0 3 (Some 2) family)) 0 = [1, 3, 2]"
    "childNodes (snd (removeChild 0 1 family)) 0 = [2]"
    "childNodes (snd (replaceChild 0 3 1 family)) 0 = [3, 2]"
    "childNodes (snd (replaceChild 0 2 1 family)) 0 = [2]"
    "childNodes (snd (replaceChild 0 2 2 family)) 0 = [1, 2]"
    by (simp_all add: tree_defs)
  ultimately show ?thesis using wf_tree_family family_eval by simp
qed

text \<open>
  The claim as it was stated fails in two ways. No operation looks for cycles:
  \<^verbatim>\<open>appendChild\<close> of a node to itself succeeds and makes the node its own parent. And
  \<^verbatim>\<open>replaceChild\<close> with a new child that stands before the old one under the receiver
  writes at the stale index: the old child stays in the list, with no parent.
\<close>

theorem tree_invariants_preserved_counterexample:
  "wf_tree blank \<and> fst (appendChild 0 0 blank) = Inr 0 \<and>
   parentNode (snd (appendChild 0 0 blank)) 0 = Some 0 \<and>
   \<not> wf_tree (snd (appendChild 0 0 blank)) \<and>
   wf_tree family \<and> childNodes family 0 = [1, 2] \<and>
   fst (replaceChild 0 1 2 family) = Inr 2 \<and>
   childNodes (snd (replaceChild 0 1 2 family)) 0 = [2, 1] \<and>
   parentNode (snd (replaceChild 0 1 2 family)) 2 = None \<and>
   \<not> wf_tree (snd (replaceChild 0 1 2 family))"
proof -
  have e: "fst (appendChild 0 0 blank) = Inr 0"
    "parentNode (snd (appendChild 0 0 blank)) 0 = Some 0"
    by (simp_all add: tree_defs)
  then have "(0, 0) \<in> parent_rel (snd (appendChild 0 0 blank))"
    by (simp add: parent_rel_def)
  then have c: "\<not> wf_tree (snd (appendChild 0 0 blank))"
    unfolding wf_tree_def by (auto dest: wf_not_refl)
  have f: "childNodes family 0 = [1, 2]" "fst (replaceChild 0 1 2 family) = Inr 2"
    "childNodes (snd (replaceChild 0 1 2 family)) 0 = [2, 1]"
    "parentNode (snd (replaceChild 0 1 2 family)) 2 = None"
    by (simp_all add: tree_defs)
  have "\<not> wf_tree (snd (replaceChild 0 1 2 family))"
  proof
    assume "wf_tree (snd (replaceChild 0 1 2 family))"
    then have "2 \<in> set (childNodes (snd (replaceChild 0 1 2 family)) 0)
        \<longleftrightarrow> parentNode (snd (replaceChild 0 1 2 family)) 2 = Some 0"
      unfolding wf_tree_def by blast
    with f show False by simp
  qed
  with e c f wf_tree_blank wf_tree_family show ?thesis by simp
qed

end
